theory Spec2Isabelle
  imports Complex_Main "HOL-Library.Word"
begin

unbundle bit_operations_syntax

section \<open>Machine integers and errors\<close>

text \<open>
  The library computes with \<open>uint64_t\<close> sizes and indices. They are modelled as
  natural numbers below \<open>2 ^ 64\<close>, with the wrap-around of every addition,
  subtraction and multiplication that can overflow written out.

  Everything that stops the C++ program, or that the language leaves undefined, is a
  value of \<open>error\<close>: a function that can reach one returns \<open>error + 'a\<close>.
\<close>

datatype error =
    DivisionByZero      \<comment> \<open>\<open>x % 0\<close>\<close>
  | OutOfRange          \<comment> \<open>a read or write outside a buffer\<close>
  | UndefinedShift      \<comment> \<open>\<open>1 << b\<close> on \<open>int\<close> with \<open>b \<ge> 32\<close>\<close>
  | SignedOverflow      \<comment> \<open>overflow of a signed 32-bit operation\<close>
  | AssertionFailed     \<comment> \<open>a failed \<open>assert\<close>\<close>
  | BadArrayLength      \<comment> \<open>\<open>new T[n]\<close> with \<open>n * sizeof(T)\<close> beyond the largest object\<close>
  | BadAlloc            \<comment> \<open>\<open>new\<close> when the allocator has no memory for the request\<close>
  | FloatConversion     \<comment> \<open>a \<open>float\<close> that is infinite, not a number or outside the integer type\<close>
  | NotImplemented      \<comment> \<open>\<open>throw "Not yet implemented: threshold broadcast"\<close>\<close>

definition add64 :: "nat \<Rightarrow> nat \<Rightarrow> nat" where
  "add64 a b = (a + b) mod 2 ^ 64"

definition sub64 :: "nat \<Rightarrow> nat \<Rightarrow> nat" where
  "sub64 a b = (a + 2 ^ 64 - b mod 2 ^ 64) mod 2 ^ 64"

definition mul64 :: "nat \<Rightarrow> nat \<Rightarrow> nat" where
  "mul64 a b = (a * b) mod 2 ^ 64"

text \<open>Sequencing of computations that can fail, and the counted \<open>for\<close> loop.\<close>

definition andThen :: "error + 'a \<Rightarrow> ('a \<Rightarrow> error + 'b) \<Rightarrow> error + 'b" where
  "andThen x f = (case x of Inl e \<Rightarrow> Inl e | Inr v \<Rightarrow> f v)"

primrec forM :: "nat list \<Rightarrow> (nat \<Rightarrow> 's \<Rightarrow> error + 's) \<Rightarrow> 's \<Rightarrow> error + 's" where
  "forM [] body s = Inr s"
| "forM (i # is) body s = andThen (body i s) (forM is body)"

text \<open>
  Signed 32-bit arithmetic (\<open>int\<close>, \<open>int32_t\<close>): overflow is undefined behaviour.
  \<open>1 << b\<close> on \<open>int\<close> is \<open>2 ^ b\<close> for \<open>b < 31\<close>, \<open>INT_MIN\<close> for \<open>b = 31\<close>
  (C++14 and later, two's complement) and undefined from \<open>b = 32\<close> on.
\<close>

definition add32 :: "int \<Rightarrow> int \<Rightarrow> error + int" where
  "add32 a b = (if - (2 ^ 31) \<le> a + b \<and> a + b < 2 ^ 31 then Inr (a + b) else Inl SignedOverflow)"

definition sub32 :: "int \<Rightarrow> int \<Rightarrow> error + int" where
  "sub32 a b = (if - (2 ^ 31) \<le> a - b \<and> a - b < 2 ^ 31 then Inr (a - b) else Inl SignedOverflow)"

definition shl_int :: "nat \<Rightarrow> error + int" where
  "shl_int b = (if b < 31 then Inr (2 ^ b) else if b = 31 then Inr (- (2 ^ 31)) else Inl UndefinedShift)"

text \<open>Reading element \<open>i\<close> of a buffer of \<open>T\<close>; outside the buffer the read is undefined.\<close>

definition readAt :: "'a list \<Rightarrow> nat \<Rightarrow> error + 'a" where
  "readAt buf i = (if i < length buf then Inr (buf ! i) else Inl OutOfRange)"

definition writeAt :: "'a list \<Rightarrow> nat \<Rightarrow> 'a \<Rightarrow> error + 'a list" where
  "writeAt buf i v = (if i < length buf then Inr (buf[i := v]) else Inl OutOfRange)"

section \<open>Alignment\<close>

text \<open>
  \<open>alignTo(in, af)\<close>: \<open>in % af\<close> traps when \<open>af = 0\<close>; the sum
  \<open>in + (af - in % af)\<close> is a \<open>uint64_t\<close> addition.
\<close>

definition alignTo :: "nat \<Rightarrow> nat \<Rightarrow> error + nat" where
  "alignTo inp af =
     (if af = 0 then Inl DivisionByZero
      else if inp mod af \<noteq> 0 then Inr (add64 inp (af - inp mod af))
      else Inr inp)"

section \<open>BitSerialMatrix\<close>

text \<open>
  The class \<open>BitSerialMatrix\<close>. The buffer \<open>data\<close> is a list of 64-bit words,
  laid out \<open>[nbits][nrows_a][ncols_a/64]\<close>.
\<close>

record BitSerialMatrix =
  issigned :: bool
  nbits :: nat
  nrows :: nat
  ncols :: nat
  nrows_a :: nat
  ncols_a :: nat
  data :: "64 word list"

definition isBipolar :: "BitSerialMatrix \<Rightarrow> bool" where
  "isBipolar m \<longleftrightarrow> nbits m = 1 \<and> issigned m"

definition wordsPerRow :: "BitSerialMatrix \<Rightarrow> nat" where
  "wordsPerRow m = ncols_a m div 64"

definition wordsPerBitplane :: "BitSerialMatrix \<Rightarrow> nat" where
  "wordsPerBitplane m = mul64 (nrows_a m) (wordsPerRow m)"

text \<open>
  \<open>new T[n]\<close>, with \<open>sz = sizeof(T)\<close>. The expression throws
  \<open>std::bad_array_new_length\<close> when the byte count \<open>n * sz\<close> is beyond the largest
  object, \<open>PTRDIFF_MAX = 2 ^ 63 - 1\<close> bytes on the 64-bit targets of g++ and clang, and
  \<open>std::bad_alloc\<close> when the allocator cannot serve the request. What the allocator
  answers does not depend on the arguments of the program alone, so it is the parameter
  \<open>mem\<close>: \<open>None\<close> when it throws, and otherwise the contents of the fresh elements,
  which \<open>new\<close> leaves uninitialised.
\<close>

definition newArray :: "nat \<Rightarrow> (nat \<Rightarrow> 'a) option \<Rightarrow> nat \<Rightarrow> error + 'a list" where
  "newArray sz mem n =
     (if 2 ^ 63 \<le> n * sz then Inl BadArrayLength
      else case mem of None \<Rightarrow> Inl BadAlloc | Some contents \<Rightarrow> Inr (map contents [0..<n]))"

text \<open>
  \<open>alloc\<close>: the two alignments, the word count \<open>nbits * wordsPerBitplane()\<close> in
  \<open>uint64_t\<close>, and \<open>new uint64_t[n]\<close>. Nothing is checked and the buffer is not
  initialised.
\<close>

definition alloc ::
  "(nat \<Rightarrow> 64 word) option \<Rightarrow> nat \<Rightarrow> nat \<Rightarrow> nat \<Rightarrow> bool \<Rightarrow> nat \<Rightarrow> nat
     \<Rightarrow> error + BitSerialMatrix" where
  "alloc mem nb nr nc signd rowalign colalign =
     andThen (alignTo nr rowalign) (\<lambda>nra.
     andThen (alignTo nc colalign) (\<lambda>nca.
       let bsm = \<lparr>issigned = signd, nbits = nb, nrows = nr, ncols = nc,
                  nrows_a = nra, ncols_a = nca, data = []\<rparr>;
           n = mul64 nb (wordsPerBitplane bsm)
       in andThen (newArray 8 mem n) (\<lambda>buf. Inr (bsm\<lparr>data := buf\<rparr>))))"

definition bitpos :: "nat \<Rightarrow> nat" where
  "bitpos col = col mod 64"

text \<open>The index of the container word in \<open>data\<close> (\<open>word(bit, row, col)\<close>).\<close>

definition wordIndex :: "BitSerialMatrix \<Rightarrow> nat \<Rightarrow> nat \<Rightarrow> nat \<Rightarrow> nat" where
  "wordIndex m b r c =
     add64 (add64 (mul64 b (wordsPerBitplane m)) (mul64 r (wordsPerRow m))) (c div 64)"

definition get :: "BitSerialMatrix \<Rightarrow> nat \<Rightarrow> nat \<Rightarrow> nat \<Rightarrow> error + bool" where
  "get m b r c =
     andThen (readAt (data m) (wordIndex m b r c)) (\<lambda>w.
       Inr (drop_bit (bitpos c) w AND 1 = 1))"

text \<open>
  \<open>clearAll\<close>: \<open>memset\<close> of \<open>nbits * wordsPerBitplane() * sizeof(uint64_t)\<close> bytes,
  a product in \<open>size_t\<close>; writing past the buffer is undefined.
\<close>

definition clearAll :: "BitSerialMatrix \<Rightarrow> error + BitSerialMatrix" where
  "clearAll m =
     (let n = mul64 (mul64 (nbits m) (wordsPerBitplane m)) 8 div 8
      in if n \<le> length (data m)
         then Inr (m\<lparr>data := replicate n 0 @ drop n (data m)\<rparr>)
         else Inl OutOfRange)"

definition set_bit_at :: "BitSerialMatrix \<Rightarrow> nat \<Rightarrow> nat \<Rightarrow> nat \<Rightarrow> error + BitSerialMatrix" where
  "set_bit_at m b r c =
     (let i = wordIndex m b r c
      in andThen (readAt (data m) i) (\<lambda>w.
         andThen (writeAt (data m) i (w OR push_bit (bitpos c) 1)) (\<lambda>d.
           Inr (m\<lparr>data := d\<rparr>))))"

text \<open>
  The importers and the exporter are templates over the element type \<open>T\<close>. They are
  modelled at \<open>T = int32_t\<close>: a source matrix is a list of integers, each within
  \<open>int32_t\<close>.

  \<open>readElem\<close> is the read
  \<open>readColMajor ? matrix[c * nrows + r] : matrix[r * ncols + c]\<close>.
\<close>

definition readElem :: "BitSerialMatrix \<Rightarrow> int list \<Rightarrow> bool \<Rightarrow> nat \<Rightarrow> nat \<Rightarrow> error + int" where
  "readElem m matrix readColMajor r c =
     readAt matrix (if readColMajor then add64 (mul64 c (nrows m)) r
                    else add64 (mul64 r (ncols m)) c)"

text \<open>
  The conversion of an element to \<open>uint8_t currentElem_uint8\<close> in \<open>importRegular\<close>.
  A negative element of a signed matrix takes the two \<open>+=\<close>; every other element is
  cast.
\<close>

definition toUint8 :: "BitSerialMatrix \<Rightarrow> int \<Rightarrow> error + int" where
  "toUint8 m v =
     (if issigned m \<and> v < 0 then
        andThen (shl_int (sub64 (nbits m) 1)) (\<lambda>s.
        andThen (add32 v s) (\<lambda>t.
          Inr (((0 + s mod 256) mod 256 + t mod 256) mod 256)))
      else Inr (v mod 256))"

text \<open>
  The loop \<open>for b < nbits: if (currentElem_uint8 & (1 << b)) set(b, r, c)\<close>, shared by
  both importers.
\<close>

definition storeBits :: "int \<Rightarrow> nat \<Rightarrow> nat \<Rightarrow> BitSerialMatrix \<Rightarrow> error + BitSerialMatrix" where
  "storeBits u r c m =
     forM [0..<nbits m] (\<lambda>b m'.
       andThen (shl_int b) (\<lambda>mask.
         if u AND mask \<noteq> 0 then set_bit_at m' b r c else Inr m')) m"

definition importElem :: "int list \<Rightarrow> bool \<Rightarrow> nat \<Rightarrow> nat \<Rightarrow> BitSerialMatrix \<Rightarrow> error + BitSerialMatrix" where
  "importElem matrix readColMajor r c m =
     andThen (readElem m matrix readColMajor r c) (\<lambda>currentElem.
       if isBipolar m then
         (if currentElem > 0 then set_bit_at m 0 r c else Inr m)
       else
         andThen (toUint8 m currentElem) (\<lambda>u. storeBits u r c m))"

definition importRegular :: "BitSerialMatrix \<Rightarrow> int list \<Rightarrow> bool \<Rightarrow> error + BitSerialMatrix" where
  "importRegular m matrix readColMajor =
     andThen (clearAll m) (\<lambda>m0.
       forM [0..<nrows m0] (\<lambda>r.
         forM [0..<ncols m0] (\<lambda>c. importElem matrix readColMajor r c)) m0)"

text \<open>
  The threshold search of \<open>importRegularAndQuantize\<close>:
  \<open>for (int t = 0; t < nThres; t++)\<close> with its \<open>break\<close>. The argument \<open>currentElem\<close>
  is the loop's variable; \<open>thresholds[t * nrows + r]\<close> is read in every round.
\<close>

function quantize :: "int list \<Rightarrow> nat \<Rightarrow> nat \<Rightarrow> int \<Rightarrow> int \<Rightarrow> int \<Rightarrow> error + int" where
  "quantize thresholds nr r nThres currentElem t =
     (if t < nThres then
        andThen (readAt thresholds (add64 (mul64 (nat t) nr) r)) (\<lambda>th.
          if currentElem \<le> th then Inr t
          else if t = nThres - 1 then quantize thresholds nr r nThres (t + 1) (t + 1)
          else quantize thresholds nr r nThres currentElem (t + 1))
      else Inr currentElem)"
  by pat_completeness auto
termination
  by (relation "measure (\<lambda>(thresholds, nr, r, nThres, currentElem, t). nat (nThres - t))") auto

declare quantize.simps [simp del]

definition quantizeElem ::
  "int list \<Rightarrow> int list \<Rightarrow> int \<Rightarrow> bool \<Rightarrow> nat \<Rightarrow> nat \<Rightarrow> BitSerialMatrix \<Rightarrow> error + BitSerialMatrix" where
  "quantizeElem matrix thresholds nThres readColMajor r c m =
     andThen (readElem m matrix readColMajor r c) (\<lambda>currentElem.
     andThen (quantize thresholds (nrows m) r nThres currentElem 0) (\<lambda>q.
       storeBits (q mod 256) r c m))"

definition importRegularAndQuantize ::
  "BitSerialMatrix \<Rightarrow> int list \<Rightarrow> int list \<Rightarrow> int \<Rightarrow> bool \<Rightarrow> error + BitSerialMatrix" where
  "importRegularAndQuantize m matrix thresholds nThres readColMajor =
     (if issigned m then Inl AssertionFailed
      else
        andThen (clearAll m) (\<lambda>m0.
          forM [0..<nrows m0] (\<lambda>r.
            forM [0..<ncols m0] (\<lambda>c.
              quantizeElem matrix thresholds nThres readColMajor r c)) m0))"

text \<open>
  \<open>exportRegular\<close>. \<open>decodeElem\<close> is the loop over the bit-planes of one element, with
  \<open>currentElem\<close> as its state; the additions are those of \<open>T = int32_t\<close>.
\<close>

definition decodeElem :: "BitSerialMatrix \<Rightarrow> nat \<Rightarrow> nat \<Rightarrow> error + int" where
  "decodeElem m r c =
     forM [0..<nbits m] (\<lambda>b currentElem.
       andThen (get m b r c) (\<lambda>isSet.
         if isSet then
           andThen (shl_int b) (\<lambda>w.
             if b = sub64 (nbits m) 1 \<and> issigned m then sub32 currentElem w
             else add32 currentElem w)
         else Inr currentElem)) 0"

definition exportElem :: "BitSerialMatrix \<Rightarrow> nat \<Rightarrow> nat \<Rightarrow> int list \<Rightarrow> error + int list" where
  "exportElem m r c matrix =
     (if isBipolar m then
        andThen (get m 0 r c) (\<lambda>isSet.
          writeAt matrix (add64 (mul64 r (ncols m)) c) (if isSet then 1 else - 1))
      else
        andThen (decodeElem m r c) (\<lambda>currentElem.
          writeAt matrix (add64 (mul64 r (ncols m)) c) currentElem))"

definition exportRegular :: "BitSerialMatrix \<Rightarrow> int list \<Rightarrow> error + int list" where
  "exportRegular m matrix =
     forM [0..<nrows m] (\<lambda>r.
       forM [0..<ncols m] (\<lambda>c. exportElem m r c)) matrix"

section \<open>Floating-point arithmetic\<close>

text \<open>
  The values of an IEEE 754 binary format: the finite ones as real numbers, the two
  infinities and NaN. Zero carries no sign here. The sign of a zero shows only in the
  sign of the infinity that a division by it gives (the divisor zero is counted as
  \<open>+0\<close>), and in the functions below every infinity ends in a conversion that is
  undefined, whatever its sign.
\<close>

datatype fl = Fin real | PInf | NInf | NaN

text \<open>
  A format is its precision (the bits of the significand) with its least and its
  greatest exponent: \<open>float\<close> is binary32 and \<open>double\<close> is binary64.
\<close>

type_synonym format = "nat \<times> int \<times> int"

definition binary32 :: format where
  "binary32 = (24, - 126, 127)"

definition binary64 :: format where
  "binary64 = (53, - 1022, 1023)"

text \<open>Rounding to the nearest integer, a tie going to the even one.\<close>

definition rne :: "real \<Rightarrow> int" where
  "rne y = (let f = \<lfloor>y\<rfloor>; d = y - of_int f
            in if d < 1 / 2 then f else if 1 / 2 < d then f + 1
               else if even f then f else f + 1)"

text \<open>
  The spacing of the numbers of the format around \<open>x \<noteq> 0\<close>: \<open>2 ^ (e - p + 1)\<close> with
  \<open>e\<close> the exponent of \<open>x\<close>, and that of the subnormal numbers below \<open>2 ^ emin\<close>.
\<close>

definition quantum :: "format \<Rightarrow> real \<Rightarrow> real" where
  "quantum F x = (case F of (p, emin, emax) \<Rightarrow>
     2 powr of_int (max emin \<lfloor>log 2 \<bar>x\<bar>\<rfloor> - int p + 1))"

text \<open>
  Rounding of a real number to the format, to nearest with ties to even (the default
  rounding mode): the nearest multiple of the spacing, and an infinity when that
  reaches \<open>2 ^ (emax + 1)\<close>.
\<close>

definition fl_round :: "format \<Rightarrow> real \<Rightarrow> fl" where
  "fl_round F x = (case F of (p, emin, emax) \<Rightarrow>
     if x = 0 then Fin 0
     else (let r = of_int (rne (x / quantum F x)) * quantum F x
           in if 2 powr of_int (emax + 1) \<le> \<bar>r\<bar> then (if 0 < x then PInf else NInf)
              else Fin r))"

text \<open>
  The operations: each is the exact result rounded to the format, with the IEEE rules
  for the infinities and NaN. \<open>floor\<close> of a finite number is exact.
\<close>

fun fl_neg :: "fl \<Rightarrow> fl" where
  "fl_neg (Fin x) = Fin (- x)"
| "fl_neg PInf = NInf"
| "fl_neg NInf = PInf"
| "fl_neg NaN = NaN"

fun fl_add :: "format \<Rightarrow> fl \<Rightarrow> fl \<Rightarrow> fl" where
  "fl_add F (Fin x) (Fin y) = fl_round F (x + y)"
| "fl_add F NaN b = NaN"
| "fl_add F a NaN = NaN"
| "fl_add F PInf NInf = NaN"
| "fl_add F NInf PInf = NaN"
| "fl_add F PInf b = PInf"
| "fl_add F a PInf = PInf"
| "fl_add F NInf b = NInf"
| "fl_add F a NInf = NInf"

definition fl_sub :: "format \<Rightarrow> fl \<Rightarrow> fl \<Rightarrow> fl" where
  "fl_sub F a b = fl_add F a (fl_neg b)"

fun fl_sign :: "fl \<Rightarrow> int" where
  "fl_sign (Fin x) = (if 0 < x then 1 else if x < 0 then - 1 else 0)"
| "fl_sign PInf = 1"
| "fl_sign NInf = - 1"
| "fl_sign NaN = 0"

fun fl_mul :: "format \<Rightarrow> fl \<Rightarrow> fl \<Rightarrow> fl" where
  "fl_mul F (Fin x) (Fin y) = fl_round F (x * y)"
| "fl_mul F NaN b = NaN"
| "fl_mul F a NaN = NaN"
| "fl_mul F a b = (if fl_sign a * fl_sign b = 0 then NaN
                   else if 0 < fl_sign a * fl_sign b then PInf else NInf)"

fun fl_div :: "format \<Rightarrow> fl \<Rightarrow> fl \<Rightarrow> fl" where
  "fl_div F (Fin x) (Fin y) =
     (if y = 0 then (if x = 0 then NaN else if 0 < x then PInf else NInf)
      else fl_round F (x / y))"
| "fl_div F NaN b = NaN"
| "fl_div F a NaN = NaN"
| "fl_div F (Fin x) b = Fin 0"
| "fl_div F a (Fin y) = (if (0 \<le> y) = (a = PInf) then PInf else NInf)"
| "fl_div F a b = NaN"

fun fl_sqrt :: "format \<Rightarrow> fl \<Rightarrow> fl" where
  "fl_sqrt F (Fin x) = (if x < 0 then NaN else fl_round F (sqrt x))"
| "fl_sqrt F PInf = PInf"
| "fl_sqrt F NInf = NaN"
| "fl_sqrt F NaN = NaN"

fun fl_floor :: "fl \<Rightarrow> fl" where
  "fl_floor (Fin x) = Fin (of_int \<lfloor>x\<rfloor>)"
| "fl_floor a = a"

text \<open>The comparison \<open><\<close>: false as soon as one side is NaN.\<close>

fun fl_less :: "fl \<Rightarrow> fl \<Rightarrow> bool" where
  "fl_less (Fin x) (Fin y) \<longleftrightarrow> x < y"
| "fl_less NaN b \<longleftrightarrow> False"
| "fl_less a NaN \<longleftrightarrow> False"
| "fl_less PInf b \<longleftrightarrow> False"
| "fl_less a NInf \<longleftrightarrow> False"
| "fl_less a b \<longleftrightarrow> True"

text \<open>
  Conversions. From a floating-point number to an integer type the value is truncated
  toward zero, and the conversion is undefined when the truncated value is not one of
  the type (infinities and NaN included). From an integer to a floating-point type the
  value is rounded.
\<close>

definition toward_zero :: "real \<Rightarrow> int" where
  "toward_zero x = (if 0 \<le> x then \<lfloor>x\<rfloor> else \<lceil>x\<rceil>)"

fun to_int64 :: "fl \<Rightarrow> error + int" where
  "to_int64 (Fin x) =
     (if - (2 ^ 63) \<le> toward_zero x \<and> toward_zero x < 2 ^ 63 then Inr (toward_zero x)
      else Inl FloatConversion)"
| "to_int64 a = Inl FloatConversion"

fun to_uint64 :: "fl \<Rightarrow> error + nat" where
  "to_uint64 (Fin x) =
     (if 0 \<le> toward_zero x \<and> toward_zero x < 2 ^ 64 then Inr (nat (toward_zero x))
      else Inl FloatConversion)"
| "to_uint64 a = Inl FloatConversion"

definition of_uint64 :: "format \<Rightarrow> nat \<Rightarrow> fl" where
  "of_uint64 F n = fl_round F (real n)"

definition of_int64 :: "format \<Rightarrow> int \<Rightarrow> fl" where
  "of_int64 F k = fl_round F (of_int k)"

section \<open>The block-size solver\<close>

text \<open>
  \<open>computeBlockSize\<close>, operation by operation in \<open>float\<close>:
  \<open>a = sizeof(int32_t) * lhsMult * rhsMult\<close> with \<open>sizeof(int32_t) = 4\<close>,
  \<open>b = dBits * (lhsMult + rhsMult)\<close>, \<open>c = -cacheBits\<close>,
  \<open>discr = sqrt(b * b - 4 * a * c)\<close>, the two roots \<open>floor((-b \<plusminus> discr) / (2 * a))\<close>
  converted to \<open>int64_t\<close>, and the two products \<open>lhsMult * x\<close>, \<open>rhsMult * x\<close>
  converted to \<open>uint64_t\<close>. Where \<open>sqrt\<close> is the one of \<open>double\<close>, its result rounded
  to the \<open>float\<close> variable \<open>discr\<close> is that of the \<open>float\<close> root of the same argument.
\<close>

definition computeBlockSize :: "fl \<Rightarrow> fl \<Rightarrow> fl \<Rightarrow> fl \<Rightarrow> error + nat \<times> nat" where
  "computeBlockSize lhsMult rhsMult cacheBits dBits =
     (let a = fl_mul binary32 (fl_mul binary32 (of_uint64 binary32 4) lhsMult) rhsMult;
          b = fl_mul binary32 dBits (fl_add binary32 lhsMult rhsMult);
          c = fl_neg cacheBits;
          discr = fl_sqrt binary32
                    (fl_sub binary32 (fl_mul binary32 b b)
                       (fl_mul binary32 (fl_mul binary32 (of_int64 binary32 4) a) c))
      in if \<not> fl_less (Fin 0) discr then Inl AssertionFailed
         else
           andThen (to_int64 (fl_floor (fl_div binary32 (fl_add binary32 (fl_neg b) discr)
                                          (fl_mul binary32 (of_int64 binary32 2) a)))) (\<lambda>x0.
           andThen (to_int64 (fl_floor (fl_div binary32 (fl_sub binary32 (fl_neg b) discr)
                                          (fl_mul binary32 (of_int64 binary32 2) a)))) (\<lambda>x1.
             let x = (if x0 > x1 then x0 else x1)
             in if \<not> x > 0 then Inl AssertionFailed
                else
                  andThen (to_uint64 (fl_mul binary32 lhsMult (of_int64 binary32 x))) (\<lambda>lb.
                  andThen (to_uint64 (fl_mul binary32 rhsMult (of_int64 binary32 x))) (\<lambda>rb.
                    Inr (lb, rb))))))"

section \<open>The fine-tuner of the block size\<close>

text \<open>
  The loop of \<open>finetuneBlockSize\<close>: \<open>ccand\<close> runs from \<open>bs_max\<close> down in steps
  of \<open>bs_div\<close> while \<open>ccand > bs_div\<close>; \<open>best_cand\<close> and \<open>min_penalty\<close> are
  the loop's two variables.
\<close>

function finetune_loop :: "nat \<Rightarrow> nat \<Rightarrow> nat \<Rightarrow> nat \<Rightarrow> nat \<Rightarrow> error + nat" where
  "finetune_loop rows bs_div ccand best_cand min_penalty =
     (if ccand > bs_div then
        (if bs_div = 0 then Inl DivisionByZero
         else if ccand mod bs_div = 0 then
           (case alignTo rows ccand of
              Inl e \<Rightarrow> Inl e
            | Inr al \<Rightarrow>
                (let penalty = sub64 al rows in
                 if penalty < min_penalty
                 then finetune_loop rows bs_div (ccand - bs_div) ccand penalty
                 else finetune_loop rows bs_div (ccand - bs_div) best_cand min_penalty))
         else finetune_loop rows bs_div (ccand - bs_div) best_cand min_penalty)
      else Inr best_cand)"
  by pat_completeness auto
termination
  by (relation "measure (\<lambda>(rows, bs_div, ccand, best_cand, min_penalty). ccand)") auto

declare finetune_loop.simps [simp del]

definition finetuneBlockSize :: "nat \<Rightarrow> nat \<Rightarrow> nat \<Rightarrow> error + nat" where
  "finetuneBlockSize rows bs_max bs_div =
     (case alignTo rows bs_max of
        Inl e \<Rightarrow> Inl e
      | Inr al \<Rightarrow> finetune_loop rows bs_div bs_max bs_max (sub64 al rows))"

section \<open>GEMMContext\<close>

record GEMMContext =
  lhs :: BitSerialMatrix
  rhs :: BitSerialMatrix
  lhsBlock :: nat
  rhsBlock :: nat
  res :: "int list"

definition isBipolarTimesRegular :: "GEMMContext \<Rightarrow> bool" where
  "isBipolarTimesRegular ctx \<longleftrightarrow>
     (isBipolar (lhs ctx) \<and> \<not> isBipolar (rhs ctx)) \<or> (\<not> isBipolar (lhs ctx) \<and> isBipolar (rhs ctx))"

definition isBipolarTimesBipolar :: "GEMMContext \<Rightarrow> bool" where
  "isBipolarTimesBipolar ctx \<longleftrightarrow> isBipolar (lhs ctx) \<and> isBipolar (rhs ctx)"

text \<open>
  The test \<open>(alignTo(rows, block) - rows) > 0.1 * rows\<close> of \<open>allocGEMMContext_base\<close>,
  followed by the fine-tuner when it holds. The comparison is one of \<open>double\<close>s: the
  literal \<open>0.1\<close> is the \<open>double\<close> nearest to one tenth, and both \<open>uint64_t\<close> values are
  converted to \<open>double\<close>.
\<close>

definition tuneBlock :: "nat \<Rightarrow> nat \<Rightarrow> nat \<Rightarrow> error + nat" where
  "tuneBlock rows block regblock =
     andThen (alignTo rows block) (\<lambda>al.
       if fl_less (fl_mul binary64 (fl_round binary64 (1 / 10)) (of_uint64 binary64 rows))
                  (of_uint64 binary64 (sub64 al rows))
       then finetuneBlockSize rows block regblock
       else Inr block)"

text \<open>
  \<open>allocGEMMContext_base\<close>. The arguments of \<open>computeBlockSize\<close> are \<open>uint64_t\<close>
  values converted to \<open>float\<close>. The three fresh buffers (of the two matrices and of
  the result) are what the allocator gives, \<open>memL\<close>, \<open>memR\<close> and \<open>memRes\<close>: none is
  initialised.
\<close>

definition allocGEMMContext_base ::
  "(nat \<Rightarrow> 64 word) option \<Rightarrow> (nat \<Rightarrow> 64 word) option \<Rightarrow> (nat \<Rightarrow> int) option \<Rightarrow>
   nat \<Rightarrow> nat \<Rightarrow> nat \<Rightarrow> nat \<Rightarrow> nat \<Rightarrow> bool \<Rightarrow> bool \<Rightarrow> nat \<Rightarrow> nat \<Rightarrow> nat \<Rightarrow> nat \<Rightarrow>
   error + GEMMContext" where
  "allocGEMMContext_base memL memR memRes lhsRows depth rhsRows lhsBits rhsBits
       lhsSigned rhsSigned regblock_lhs regblock_d regblock_rhs cacheBits =
     andThen (alignTo depth (mul64 regblock_d 64)) (\<lambda>depth_al.
     andThen (computeBlockSize (of_uint64 binary32 regblock_lhs) (of_uint64 binary32 regblock_rhs)
                (of_uint64 binary32 cacheBits) (of_uint64 binary32 depth_al)) (\<lambda>(candL, candR).
     andThen
       (if candL > lhsRows \<or> candR > rhsRows then
          andThen (alignTo lhsRows regblock_lhs) (\<lambda>lb.
          andThen (alignTo rhsRows regblock_rhs) (\<lambda>rb. Inr (lb, rb)))
        else
          andThen (tuneBlock lhsRows candL regblock_lhs) (\<lambda>lb.
          andThen (tuneBlock rhsRows candR regblock_rhs) (\<lambda>rb. Inr (lb, rb))))
       (\<lambda>(lb, rb).
     andThen (alloc memL lhsBits lhsRows depth lhsSigned lb (mul64 regblock_d 64)) (\<lambda>l.
     andThen (alloc memR rhsBits rhsRows depth rhsSigned rb (mul64 regblock_d 64)) (\<lambda>r.
     andThen (newArray 4 memRes (mul64 lhsRows rhsRows)) (\<lambda>buf.
       Inr \<lparr>lhs = l, rhs = r, lhsBlock = lb, rhsBlock = rb, res = buf\<rparr>))))))"

section \<open>The bitmap prototype\<close>

text \<open>
  \<open>gemm-bitserial.cpp\<close> keeps every bit-plane of a row as a Roaring bitmap, a finite
  set of column indices: a \<open>BitSerialVector\<close> is a list of bitmaps (one per bit), and
  the prototype's matrix a list of such vectors (one per row). The header at hand
  declares neither \<open>AccumulateElem\<close> nor \<open>ThresholdMatrix\<close>; the accumulator is
  taken to be 32 bits wide, as \<open>ResultElem\<close> is, and a threshold to be an integer.
\<close>

type_synonym Roaring = "nat set"
type_synonym BitSerialVector = "Roaring list"

text \<open>
  One round of the inner loops of \<open>bitSerialMatrixVector\<close>: \<open>contr\<close> is a
  \<open>uint32_t\<close>, so the count is truncated to 32 bits, the shift is undefined from 32
  on, and the negation and the sum wrap.
\<close>

definition contribution ::
  "BitSerialVector \<Rightarrow> BitSerialVector \<Rightarrow> nat \<Rightarrow> nat \<Rightarrow> bool \<Rightarrow> bool \<Rightarrow> nat \<Rightarrow> nat \<Rightarrow>
   32 word \<Rightarrow> error + 32 word" where
  "contribution crow x Abits xbits Asigned xsigned Abit xbit rowres =
     andThen (readAt crow Abit) (\<lambda>a.
     andThen (readAt x xbit) (\<lambda>b.
       let contr = (of_nat (card (a \<inter> b)) :: 32 word);
           shift = add64 Abit xbit
       in if 32 \<le> shift then Inl UndefinedShift
          else
            (let contr = push_bit shift contr;
                 neg_A = (Asigned \<and> Abit = sub64 Abits 1);
                 neg_x = (xsigned \<and> xbit = sub64 xbits 1);
                 neg = (neg_A \<noteq> neg_x)
             in Inr (rowres + (if neg then - contr else contr)))))"

definition rowAccumulate ::
  "BitSerialVector list \<Rightarrow> BitSerialVector \<Rightarrow> nat \<Rightarrow> bool \<Rightarrow> bool \<Rightarrow> nat \<Rightarrow> error + 32 word" where
  "rowAccumulate A x Abits Asigned xsigned r =
     andThen (readAt A r) (\<lambda>crow.
       forM [0..<Abits] (\<lambda>Abit.
         forM [0..<length x] (\<lambda>xbit.
           contribution crow x Abits (length x) Asigned xsigned Abit xbit)) 0)"

definition bitSerialMatrixVector ::
  "BitSerialVector list \<Rightarrow> BitSerialVector \<Rightarrow> nat \<Rightarrow> bool \<Rightarrow> bool \<Rightarrow> error + 32 word list" where
  "bitSerialMatrixVector A x cols Asigned xsigned =
     andThen (readAt A 0) (\<lambda>a0.
       forM [0..<length A] (\<lambda>r ret.
         andThen (rowAccumulate A x (length a0) Asigned xsigned r) (\<lambda>rowres.
           Inr (ret @ [rowres]))) [])"

text \<open>
  The loop \<open>for t < numThres: postthres += (v >= T[t][r]) ? 1 : 0\<close> of both
  thresholding functions; \<open>postthres\<close> is an \<open>int32_t\<close>.
\<close>

definition countCrossed :: "int list list \<Rightarrow> int \<Rightarrow> nat \<Rightarrow> error + int" where
  "countCrossed T v r =
     forM [0..<length T] (\<lambda>t postthres.
       andThen (readAt T t) (\<lambda>row.
       andThen (readAt row r) (\<lambda>th.
         add32 postthres (if v \<ge> th then 1 else 0)))) 0"

definition bitSerialMatrixVectorThreshold ::
  "BitSerialVector list \<Rightarrow> BitSerialVector \<Rightarrow> int list list \<Rightarrow> nat \<Rightarrow> bool \<Rightarrow> bool \<Rightarrow>
   error + int list" where
  "bitSerialMatrixVectorThreshold A x T cols Asigned xsigned =
     andThen (readAt A 0) (\<lambda>a0.
     andThen (readAt T 0) (\<lambda>t0.
       forM [0..<length A] (\<lambda>r ret.
         andThen (rowAccumulate A x (length a0) Asigned xsigned r) (\<lambda>rowres.
           if length t0 = length A then
             andThen (countCrossed T (sint rowres) r) (\<lambda>postthres.
               Inr (ret @ [postthres]))
           else Inl NotImplemented)) []))"

definition threshold :: "int list \<Rightarrow> int list list \<Rightarrow> error + int list" where
  "threshold x T =
     andThen (readAt T 0) (\<lambda>t0.
       forM [0..<length x] (\<lambda>r ret.
         if length t0 = length x then
           andThen (readAt x r) (\<lambda>v.
           andThen (countCrossed T v r) (\<lambda>postthres.
             Inr (ret @ [postthres])))
         else Inl NotImplemented) [])"

section \<open>Vocabulary of the properties\<close>

text \<open>
  The padding a block size costs: the distance from \<open>rows\<close> to the next multiple of
  \<open>cand\<close>.
\<close>

definition padding :: "nat \<Rightarrow> nat \<Rightarrow> nat" where
  "padding rows cand = (cand - rows mod cand) mod cand"

text \<open>
  The candidates the loop examines: \<open>bs_max\<close> itself (the initial best), and every
  \<open>bs_max - k * bs_div\<close> that is a multiple of \<open>bs_div\<close> and is strictly above
  \<open>bs_div\<close>.
\<close>

definition examined :: "nat \<Rightarrow> nat \<Rightarrow> nat set" where
  "examined bs_max bs_div =
     insert bs_max {c \<in> {bs_div<..bs_max}. bs_div dvd c \<and> bs_div dvd (bs_max - c)}"

text \<open>
  The candidates as the specification lists them: from \<open>bs_max\<close> down to \<open>bs_div\<close>
  (included) in steps of \<open>bs_div\<close>, keeping the multiples of \<open>bs_div\<close>.
\<close>

definition listed :: "nat \<Rightarrow> nat \<Rightarrow> nat set" where
  "listed bs_max bs_div =
     {c \<in> {bs_div..bs_max}. bs_div dvd c \<and> bs_div dvd (bs_max - c)}"

text \<open>
  The candidates the loop has examined when its variable stands at \<open>ccand\<close>.
\<close>

definition scanned :: "nat \<Rightarrow> nat \<Rightarrow> nat \<Rightarrow> nat set" where
  "scanned bs_max bs_div ccand =
     insert bs_max {c \<in> {max ccand bs_div<..bs_max}. bs_div dvd c \<and> bs_div dvd (bs_max - c)}"

text \<open>
  \<open>r\<close> is the best of the candidates \<open>S\<close>: no candidate pads less, and every
  candidate that pads as little is at most \<open>r\<close>.
\<close>

definition best_of :: "nat \<Rightarrow> nat set \<Rightarrow> nat \<Rightarrow> bool" where
  "best_of rows S r \<longleftrightarrow>
     r \<in> S \<and> (\<forall>c\<in>S. padding rows r \<le> padding rows c
                  \<and> (padding rows c = padding rows r \<longrightarrow> c \<le> r))"

text \<open>The number of thresholds of channel \<open>r\<close> that the value \<open>v\<close> has reached.\<close>

definition crossed :: "int list list \<Rightarrow> int \<Rightarrow> nat \<Rightarrow> int" where
  "crossed T v r = int (length (filter (\<lambda>row. v \<ge> row ! r) T))"

definition wellFormed :: "BitSerialMatrix \<Rightarrow> bool" where
  "wellFormed m \<longleftrightarrow>
     nbits m < 2 ^ 64
     \<and> nrows m \<le> nrows_a m \<and> ncols m \<le> ncols_a m \<and> 64 dvd ncols_a m
     \<and> nrows_a m * ncols_a m < 2 ^ 64
     \<and> length (data m) = nbits m * (nrows_a m * (ncols_a m div 64))
     \<and> length (data m) * 8 < 2 ^ 64"

definition sameShape :: "BitSerialMatrix \<Rightarrow> BitSerialMatrix \<Rightarrow> bool" where
  "sameShape m s \<longleftrightarrow>
     issigned s = issigned m \<and> nbits s = nbits m \<and> nrows s = nrows m \<and> ncols s = ncols m
     \<and> nrows_a s = nrows_a m \<and> ncols_a s = ncols_a m \<and> length (data s) = length (data m)"

definition bitAt :: "BitSerialMatrix \<Rightarrow> nat \<Rightarrow> nat \<Rightarrow> nat \<Rightarrow> bool" where
  "bitAt m b r c =
     bit (data m ! (b * (nrows_a m * (ncols_a m div 64)) + r * (ncols_a m div 64) + c div 64))
       (c mod 64)"

definition allocated :: "BitSerialMatrix \<Rightarrow> (nat \<times> nat \<times> nat) set" where
  "allocated m = {(b, r, c). b < nbits m \<and> r < nrows_a m \<and> c < ncols_a m}"

definition bitsSet :: "BitSerialMatrix \<Rightarrow> (nat \<times> nat \<times> nat) set" where
  "bitsSet m = {(b, r, c). (b, r, c) \<in> allocated m \<and> bitAt m b r c}"

definition cellBits :: "int \<Rightarrow> nat \<Rightarrow> nat \<Rightarrow> nat \<Rightarrow> (nat \<times> nat \<times> nat) set" where
  "cellBits u r c k = {(b, r', c'). r' = r \<and> c' = c \<and> b < k \<and> bit u b}"

definition doneBits :: "BitSerialMatrix \<Rightarrow> (nat \<Rightarrow> nat \<Rightarrow> int) \<Rightarrow> nat \<Rightarrow> nat \<Rightarrow> (nat \<times> nat \<times> nat) set" where
  "doneBits m val k j =
     {(b, r, c). (r < k \<and> c < ncols m \<or> r = k \<and> c < j) \<and> b < nbits m \<and> bit (val r c) b}"

definition logicalBits :: "BitSerialMatrix \<Rightarrow> (nat \<Rightarrow> nat \<Rightarrow> int) \<Rightarrow> (nat \<times> nat \<times> nat) set" where
  "logicalBits m val =
     {(b, r, c). r < nrows m \<and> c < ncols m \<and> b < nbits m \<and> bit (val r c) b}"

definition logical :: "int list \<Rightarrow> bool \<Rightarrow> nat \<Rightarrow> nat \<Rightarrow> nat \<Rightarrow> nat \<Rightarrow> int" where
  "logical matrix readColMajor nr nc r c =
     matrix ! (if readColMajor then c * nr + r else r * nc + c)"

definition encode :: "BitSerialMatrix \<Rightarrow> int \<Rightarrow> int" where
  "encode m v =
     (if isBipolar m then (if v > 0 then 1 else 0)
      else if issigned m \<and> v < 0 then (v + 2 ^ nbits m) mod 256
      else v mod 256)"

definition stored :: "BitSerialMatrix \<Rightarrow> int list \<Rightarrow> bool \<Rightarrow> nat \<Rightarrow> nat \<Rightarrow> int" where
  "stored m matrix readColMajor r c =
     encode m (logical matrix readColMajor (nrows m) (ncols m) r c)"

definition importable :: "BitSerialMatrix \<Rightarrow> int list \<Rightarrow> bool" where
  "importable m matrix \<longleftrightarrow>
     nrows m * ncols m \<le> length matrix
     \<and> nbits m \<le> 32 \<and> (issigned m \<longrightarrow> 0 < nbits m \<and> nbits m \<le> 31)
     \<and> (\<forall>v\<in>set matrix. - (2 ^ 31) \<le> v \<and> v < 2 ^ 31)"

definition paddingZero :: "BitSerialMatrix \<Rightarrow> bool" where
  "paddingZero m \<longleftrightarrow>
     (\<forall>b r c. b < nbits m \<and> r < nrows_a m \<and> c < ncols_a m \<and> (nrows m \<le> r \<or> ncols m \<le> c)
        \<longrightarrow> get m b r c = Inr False)"

definition level :: "int list \<Rightarrow> nat \<Rightarrow> nat \<Rightarrow> nat \<Rightarrow> int \<Rightarrow> nat" where
  "level thresholds nr r n v =
     length (takeWhile (\<lambda>t. thresholds ! (t * nr + r) < v) [0..<n])"

definition qbyte ::
  "BitSerialMatrix \<Rightarrow> int list \<Rightarrow> int list \<Rightarrow> int \<Rightarrow> bool \<Rightarrow> nat \<Rightarrow> nat \<Rightarrow> int" where
  "qbyte m matrix thresholds nThres readColMajor r c =
     (case quantize thresholds (nrows m) r nThres
             (logical matrix readColMajor (nrows m) (ncols m) r c) 0 of
        Inr q \<Rightarrow> q mod 256
      | Inl e \<Rightarrow> 0)"

text \<open>
  \<open>q\<close> is the smallest index \<open>t < n\<close> with \<open>v \<le> thresholds[t][r]\<close>, or \<open>n\<close> when
  there is none.
\<close>

definition firstCrossing :: "int list \<Rightarrow> nat \<Rightarrow> nat \<Rightarrow> nat \<Rightarrow> int \<Rightarrow> nat \<Rightarrow> bool" where
  "firstCrossing thresholds nr r n v q \<longleftrightarrow>
     q \<le> n \<and> (\<forall>t<q. thresholds ! (t * nr + r) < v)
     \<and> (q < n \<longrightarrow> v \<le> thresholds ! (q * nr + r))"

text \<open>
  The weight \<open>exportRegular\<close> gives plane \<open>b\<close>, the value it writes for a cell, the
  row-major layout of a logical matrix, and the range of an element.
\<close>

definition planeValue :: "BitSerialMatrix \<Rightarrow> nat \<Rightarrow> int" where
  "planeValue m b = (if b = nbits m - 1 \<and> issigned m then - (2 ^ b) else 2 ^ b)"

definition cellValue :: "BitSerialMatrix \<Rightarrow> nat \<Rightarrow> nat \<Rightarrow> int" where
  "cellValue m r c =
     (if isBipolar m then (if (0, r, c) \<in> bitsSet m then 1 else - 1)
      else (\<Sum>b<nbits m. if (b, r, c) \<in> bitsSet m then planeValue m b else 0))"

definition rowMajor :: "nat \<Rightarrow> nat \<Rightarrow> (nat \<Rightarrow> nat \<Rightarrow> int) \<Rightarrow> int list" where
  "rowMajor nr nc M = map (\<lambda>i. M (i div nc) (i mod nc)) [0..<nr * nc]"

definition inRange :: "BitSerialMatrix \<Rightarrow> int \<Rightarrow> bool" where
  "inRange m v \<longleftrightarrow>
     (if isBipolar m then v = 1 \<or> v = - 1
      else if issigned m then - (2 ^ (nbits m - 1)) \<le> v \<and> v < 2 ^ (nbits m - 1)
      else 0 \<le> v \<and> v < 2 ^ nbits m)"

section \<open>The GEMM kernel\<close>

text \<open>
  Modelled from the spec: \<^verbatim>\<open>arch-generic.hpp\<close>, which holds the generic kernel
  \<^verbatim>\<open>gemmBitSerial_generic\<close> that \<open>gemmBitSerial\<close> names, is included by
  \<^verbatim>\<open>gemmbitserial.hpp\<close> but is not among the sources. Everything in this section follows
  section 4.5 of the specification. \<open>popcount\<close> is the population count of a 64-bit word.
\<close>

definition popcount :: "64 word \<Rightarrow> nat" where
  "popcount w = length (filter (bit w) [0..<64])"

text \<open>Word \<open>k\<close> of row \<open>r\<close> of bit plane \<open>b\<close>: \<open>rowptr(b, r)[k]\<close>.\<close>

definition wordAt :: "BitSerialMatrix \<Rightarrow> nat \<Rightarrow> nat \<Rightarrow> nat \<Rightarrow> 64 word" where
  "wordAt m b r k = data m ! (b * wordsPerBitplane m + r * wordsPerRow m + k)"

text \<open>
  Modelled from the spec: the micro-kernel sum
  \<open>\<Sigma>_k popcount(lhs_bitplane[bL].row(i).word[k] AND rhs_bitplane[bR].row(j).word[k])\<close>
  over all \<open>wordsPerRow\<close> words.
\<close>

definition andPopcount :: "BitSerialMatrix \<Rightarrow> nat \<Rightarrow> nat \<Rightarrow> BitSerialMatrix \<Rightarrow> nat \<Rightarrow> nat \<Rightarrow> nat" where
  "andPopcount l bL i r bR j =
     (\<Sum>k<wordsPerRow l. popcount (wordAt l bL i k AND wordAt r bR j k))"

text \<open>
  Modelled from the spec: the per-row popcount of a bit plane (\<open>sumRows\<close>), used by the
  bipolar corrections.
\<close>

definition rowPopcount :: "BitSerialMatrix \<Rightarrow> nat \<Rightarrow> nat \<Rightarrow> nat" where
  "rowPopcount m b r = (\<Sum>k<wordsPerRow m. popcount (wordAt m b r k))"

text \<open>
  Modelled from the spec: what one pair of bit planes adds to cell \<open>(i, j)\<close>, with
  \<open>p\<close> the AND-popcount. When one side is bipolar it is \<open>(2p - row_popcount) * 2^b\<close>,
  with the sign of the top plane of a signed operand; when neither is, it is
  \<open>2^(bL + bR) * p\<close>, negated iff \<open>signL XOR signR\<close> where
  \<open>signL = lhs.signed \<and> bL = lhs.nbits - 1\<close> and \<open>signR = rhs.signed \<and> bR = rhs.nbits - 1\<close>.

  When both sides are bipolar the specification gives \<open>2p - k\<close> for a \<open>k\<close>-wide row and
  requires the result to be the product of the sign-expanded matrices (bipolar
  equivalence). The two agree when \<open>p\<close> counts the columns at which the two rows agree:
  those where both bits are set, which is the AND-popcount, and those where both are clear,
  which is \<open>k\<close> less the two row popcounts (\<open>sumRows\<close>) plus the AND-popcount. That is
  the count taken here. With the bare AND-popcount for \<open>p\<close> the rule would give \<open>-1\<close>
  for \<open>[[-1]] * [[-1]]\<close>, against the bipolar equivalence.
\<close>

definition planeContribution :: "GEMMContext \<Rightarrow> nat \<Rightarrow> nat \<Rightarrow> nat \<Rightarrow> nat \<Rightarrow> int" where
  "planeContribution ctx bL bR i j =
     (let l = lhs ctx; r = rhs ctx; p = int (andPopcount l bL i r bR j)
      in if isBipolarTimesBipolar ctx then
           (let agree = p + (int (ncols l) - int (rowPopcount l bL i)
                              - int (rowPopcount r bR j) + p)
            in 2 * agree - int (ncols l))
         else if isBipolar l then planeValue r bR * (2 * p - int (rowPopcount r bR j))
         else if isBipolar r then planeValue l bL * (2 * p - int (rowPopcount l bL i))
         else (let signL = (issigned l \<and> bL = nbits l - 1);
                   signR = (issigned r \<and> bR = nbits r - 1)
               in if signL \<noteq> signR then - (2 ^ (bL + bR) * p) else 2 ^ (bL + bR) * p))"

text \<open>
  Modelled from the spec: accumulation into the 32-bit result cell \<open>i * rhs.nrows + j\<close>;
  only cells with \<open>i < lhs.nrows\<close> and \<open>j < rhs.nrows\<close> are written. The specification does
  not say what an overflowing accumulation does: the cell is a 32-bit word, which wraps.
\<close>

definition accumulate :: "GEMMContext \<Rightarrow> nat \<Rightarrow> nat \<Rightarrow> nat \<Rightarrow> nat \<Rightarrow> 32 word list \<Rightarrow> 32 word list" where
  "accumulate ctx bL bR i j acc =
     (if i < nrows (lhs ctx) \<and> j < nrows (rhs ctx)
      then acc[i * nrows (rhs ctx) + j :=
                 acc ! (i * nrows (rhs ctx) + j) + word_of_int (planeContribution ctx bL bR i j)]
      else acc)"

text \<open>
  Modelled from the spec: the micro-kernel on the tile of \<open>lhsBlock\<close> rows \<open>lt\<close> and of
  \<open>rhsBlock\<close> rows \<open>rt\<close>, for one pair of bit planes.
\<close>

definition microKernel :: "GEMMContext \<Rightarrow> nat \<Rightarrow> nat \<Rightarrow> nat \<Rightarrow> nat \<Rightarrow> 32 word list \<Rightarrow> 32 word list" where
  "microKernel ctx lt rt bL bR =
     fold (\<lambda>ii. fold (\<lambda>jj.
        accumulate ctx bL bR (lt * lhsBlock ctx + ii) (rt * rhsBlock ctx + jj))
        [0..<rhsBlock ctx]) [0..<lhsBlock ctx]"

text \<open>
  Modelled from the spec: the contract of the kernel. Both operands have the same depth and the
  same padded depth, each block size divides the padded row count of its operand, and the
  buffers have the size of their shape, so that every word the kernel reads exists.
\<close>

definition kernelReady :: "GEMMContext \<Rightarrow> bool" where
  "kernelReady ctx \<longleftrightarrow>
     wellFormed (lhs ctx) \<and> wellFormed (rhs ctx)
     \<and> ncols (lhs ctx) = ncols (rhs ctx) \<and> ncols_a (lhs ctx) = ncols_a (rhs ctx)
     \<and> 0 < lhsBlock ctx \<and> lhsBlock ctx dvd nrows_a (lhs ctx)
     \<and> 0 < rhsBlock ctx \<and> rhsBlock ctx dvd nrows_a (rhs ctx)"

text \<open>
  Modelled from the spec: \<open>gemmBitSerial\<close>. The result cells start at zero; for each tile of
  the left rows and each tile of the right rows, the pairs \<open>(bL, bR)\<close> are taken in ascending
  order and the micro-kernel is run. Outside the contract the model stops.
\<close>

definition gemmBitSerial :: "GEMMContext \<Rightarrow> error + GEMMContext" where
  "gemmBitSerial ctx =
     (if \<not> kernelReady ctx then Inl AssertionFailed
      else
        Inr (ctx\<lparr>res := map sint
          (fold (\<lambda>lt. fold (\<lambda>rt.
             fold (\<lambda>bL. fold (\<lambda>bR. microKernel ctx lt rt bL bR)
               [0..<nbits (rhs ctx)]) [0..<nbits (lhs ctx)])
             [0..<nrows_a (rhs ctx) div rhsBlock ctx])
             [0..<nrows_a (lhs ctx) div lhsBlock ctx]
             (replicate (nrows (lhs ctx) * nrows (rhs ctx)) 0))\<rparr>))"

section \<open>Vocabulary of the kernel's properties\<close>

text \<open>\<open>F\<close> adds \<open>f idx\<close> to cell \<open>idx\<close> of every accumulator and keeps its length.\<close>

definition adds :: "(nat \<Rightarrow> 32 word) \<Rightarrow> (32 word list \<Rightarrow> 32 word list) \<Rightarrow> bool" where
  "adds f F \<longleftrightarrow>
     (\<forall>acc. length (F acc) = length acc \<and> (\<forall>idx<length acc. F acc ! idx = acc ! idx + f idx))"

text \<open>What the visit of cell \<open>(i, j)\<close> for one pair of planes adds to cell \<open>idx\<close>.\<close>

definition visit :: "GEMMContext \<Rightarrow> nat \<Rightarrow> nat \<Rightarrow> nat \<Rightarrow> nat \<Rightarrow> nat \<Rightarrow> 32 word" where
  "visit ctx bL bR i j idx =
     (if i < nrows (lhs ctx) \<and> j < nrows (rhs ctx) \<and> idx = i * nrows (rhs ctx) + j
      then word_of_int (planeContribution ctx bL bR i j) else 0)"

text \<open>The naive inner product \<open>\<Sigma>_k M[i,k] * N[j,k]\<close> over \<open>depth\<close> columns.\<close>

definition innerProduct :: "(nat \<Rightarrow> nat \<Rightarrow> int) \<Rightarrow> (nat \<Rightarrow> nat \<Rightarrow> int) \<Rightarrow> nat \<Rightarrow> nat \<Rightarrow> nat \<Rightarrow> int" where
  "innerProduct M N depth i j = (\<Sum>k<depth. M i k * N j k)"

section \<open>Sequencing and loops\<close>

lemma andThen_Inr [simp]: "andThen (Inr v) f = f v"
  by (simp add: andThen_def)

lemma andThen_Inl [simp]: "andThen (Inl e) f = Inl e"
  by (simp add: andThen_def)

lemma andThen_eq_Inr:
  "andThen x f = Inr y \<longleftrightarrow> (\<exists>v. x = Inr v \<and> f v = Inr y)"
  by (cases x) simp_all

lemma forM_append: "forM (xs @ ys) body s = andThen (forM xs body s) (forM ys body)"
  by (induction xs arbitrary: s) (auto simp: andThen_def split: sum.splits)

lemma forM_cong_on:
  assumes "\<And>i s. i \<in> set xs \<Longrightarrow> body i s = body' i s"
  shows "forM xs body s = forM xs body' s"
  using assms
proof (induction xs arbitrary: s)
  case Nil
  then show ?case by simp
next
  case (Cons i xs)
  have "forM xs body = forM xs body'" using Cons by auto
  then show ?case using Cons.prems by simp
qed

lemma forM_collect:
  assumes "\<And>i. i < n \<Longrightarrow> f i = Inr (g i)"
  shows "forM [0..<n] (\<lambda>i ret. andThen (f i) (\<lambda>p. Inr (ret @ [p]))) ret0
           = Inr (ret0 @ map g [0..<n])"
  using assms
proof (induction n)
  case 0
  then show ?case by simp
next
  case (Suc n)
  then show ?case by (simp add: forM_append)
qed

lemma forM_collect_Inr:
  assumes "forM [0..<n] (\<lambda>i ret. andThen (f i) (\<lambda>p. Inr (ret @ [p]))) ret0 = Inr ret"
  shows "\<exists>g. (\<forall>i<n. f i = Inr (g i)) \<and> ret = ret0 @ map g [0..<n]"
  using assms
proof (induction n arbitrary: ret)
  case 0
  then show ?case by simp
next
  case (Suc n)
  from Suc.prems obtain mid where
    mid: "forM [0..<n] (\<lambda>i ret. andThen (f i) (\<lambda>p. Inr (ret @ [p]))) ret0 = Inr mid"
    and last: "andThen (f n) (\<lambda>p. Inr (mid @ [p])) = Inr ret"
    by (auto simp: forM_append andThen_eq_Inr)
  from Suc.IH [OF mid] obtain g where
    g: "\<forall>i<n. f i = Inr (g i)" "mid = ret0 @ map g [0..<n]" by blast
  from last obtain p where p: "f n = Inr p" "ret = mid @ [p]"
    by (auto simp: andThen_eq_Inr)
  let ?g = "g(n := p)"
  have "\<forall>i<Suc n. f i = Inr (?g i)" using g(1) p(1) by (simp add: less_Suc_eq)
  moreover have "ret = ret0 @ map ?g [0..<Suc n]" using g(2) p(2) by simp
  ultimately show ?case by blast
qed

section \<open>Properties of the fine-tuner\<close>

text \<open>A subtraction undoes an addition, whether or not the addition wrapped.\<close>

lemma sub64_add64:
  fixes r p :: nat
  assumes "r < 2 ^ 64" "p < 2 ^ 64"
  shows "sub64 (add64 r p) r = p"
proof (cases "r + p < 2 ^ 64")
  case True
  then show ?thesis using assms by (simp add: sub64_def add64_def)
next
  case False
  then have "(r + p) mod 2 ^ 64 = r + p - 2 ^ 64"
    using assms by (simp add: mod_if)
  then show ?thesis using assms False by (simp add: sub64_def add64_def)
qed

text \<open>The penalty the code computes is the padding, also where \<open>alignTo\<close> wraps.\<close>

lemma penalty_is_padding:
  assumes "rows < 2 ^ 64" "cand < 2 ^ 64" "0 < cand"
  shows "\<exists>al. alignTo rows cand = Inr al \<and> sub64 al rows = padding rows cand"
proof (cases "rows mod cand = 0")
  case True
  then show ?thesis using assms by (simp add: alignTo_def sub64_def padding_def)
next
  case False
  have "cand - rows mod cand < 2 ^ 64" using assms by simp
  moreover have "cand - rows mod cand < cand" using False assms by simp
  ultimately show ?thesis using False assms
    by (simp add: alignTo_def padding_def sub64_add64)
qed

lemma scanned_step:
  assumes "bs_div < ccand" "ccand \<le> bs_max" "bs_div dvd (bs_max - ccand)" "0 < bs_div"
  shows "scanned bs_max bs_div (ccand - bs_div) \<subseteq> insert ccand (scanned bs_max bs_div ccand)"
proof
  fix c assume c: "c \<in> scanned bs_max bs_div (ccand - bs_div)"
  show "c \<in> insert ccand (scanned bs_max bs_div ccand)"
  proof (cases "c = bs_max \<or> ccand < c")
    case True
    then show ?thesis using c assms by (auto simp: scanned_def)
  next
    case False
    then have le: "c \<le> ccand" and lt: "ccand - bs_div < c" and d: "bs_div dvd (bs_max - c)"
      using c by (auto simp: scanned_def)
    have "bs_max - c = (bs_max - ccand) + (ccand - c)" using le assms by simp
    then have "bs_div dvd (ccand - c)" using d assms(3)
      by (metis dvd_add_right_iff)
    moreover have "ccand - c < bs_div" using lt le assms by arith
    ultimately have "ccand - c = 0" by (meson dvd_imp_le not_less zero_less_iff_neq_zero)
    then show ?thesis using le by simp
  qed
qed

text \<open>
  The invariant of the loop: the best of what has been examined so far, with its
  padding in \<open>minp\<close>. At the exit it is the best of all that the loop examines.
\<close>

lemma finetune_loop_best:
  assumes "rows < 2 ^ 64" "0 < bs_div" "bs_max < 2 ^ 64" "0 < bs_max"
  shows "ccand \<le> bs_max \<Longrightarrow> bs_div dvd (bs_max - ccand)
    \<Longrightarrow> best_of rows (scanned bs_max bs_div ccand) best \<Longrightarrow> minp = padding rows best
    \<Longrightarrow> \<exists>r. finetune_loop rows bs_div ccand best minp = Inr r
          \<and> best_of rows (examined bs_max bs_div) r"
proof (induction ccand arbitrary: best minp rule: less_induct)
  case (less ccand)
  show ?case
  proof (cases "bs_div < ccand")
    case False
    then have "scanned bs_max bs_div ccand = examined bs_max bs_div"
      by (simp add: scanned_def examined_def max_def)
    then show ?thesis using less.prems False
      by (simp add: finetune_loop.simps)
  next
    case True
    let ?n = "ccand - bs_div"
    have n: "?n < ccand" "?n \<le> bs_max" using True assms less.prems by auto
    have dn: "bs_div dvd (bs_max - ?n)"
    proof -
      have "bs_max - ?n = (bs_max - ccand) + bs_div" using True less.prems by simp
      moreover have "bs_div dvd (bs_max - ccand) + bs_div" using less.prems(2) by simp
      ultimately show ?thesis by simp
    qed
    have sub: "scanned bs_max bs_div ?n \<subseteq> insert ccand (scanned bs_max bs_div ccand)"
      using scanned_step True less.prems assms by simp
    have mono: "scanned bs_max bs_div ccand \<subseteq> scanned bs_max bs_div ?n"
      by (auto simp: scanned_def)
    show ?thesis
    proof (cases "ccand mod bs_div = 0")
      case False
      then have "ccand \<notin> scanned bs_max bs_div ?n \<or> ccand = bs_max"
        by (auto simp: scanned_def)
      then have "scanned bs_max bs_div ?n = scanned bs_max bs_div ccand"
        using sub mono by (auto simp: scanned_def)
      then have "best_of rows (scanned bs_max bs_div ?n) best" using less.prems by simp
      from less.IH [OF n(1) n(2) dn this less.prems(4)]
      show ?thesis using True False assms by (simp add: finetune_loop.simps [of _ _ ccand])
    next
      case dv: True
      have cc: "ccand < 2 ^ 64" "0 < ccand" using less.prems assms True by auto
      from penalty_is_padding [OF assms(1) cc] obtain al where
        al: "alignTo rows ccand = Inr al" "sub64 al rows = padding rows ccand" by blast
      have cin: "ccand \<in> scanned bs_max bs_div ?n"
        using True dv less.prems assms by (auto simp: scanned_def)
      show ?thesis
      proof (cases "padding rows ccand < minp")
        case p: True
        have "best_of rows (scanned bs_max bs_div ?n) ccand"
          unfolding best_of_def
        proof (intro conjI ballI)
          show "ccand \<in> scanned bs_max bs_div ?n" by (rule cin)
        next
          fix c assume "c \<in> scanned bs_max bs_div ?n"
          then have "c = ccand \<or> c \<in> scanned bs_max bs_div ccand" using sub by auto
          then show "padding rows ccand \<le> padding rows c"
            using p less.prems(3,4) by (auto simp: best_of_def)
        next
          fix c assume "c \<in> scanned bs_max bs_div ?n"
          then have "c = ccand \<or> c \<in> scanned bs_max bs_div ccand" using sub by auto
          then show "padding rows c = padding rows ccand \<longrightarrow> c \<le> ccand"
            using p less.prems(3,4) by (auto simp: best_of_def)
        qed
        from less.IH [OF n(1) n(2) dn this refl]
        show ?thesis using True dv assms al p
          by (simp add: finetune_loop.simps [of _ _ ccand])
      next
        case p: False
        have bge: "ccand \<le> best"
        proof -
          have "best \<in> scanned bs_max bs_div ccand" using less.prems by (simp add: best_of_def)
          then show ?thesis using less.prems(1) by (auto simp: scanned_def)
        qed
        have "best_of rows (scanned bs_max bs_div ?n) best"
          unfolding best_of_def
        proof (intro conjI ballI)
          show "best \<in> scanned bs_max bs_div ?n" using less.prems mono by (auto simp: best_of_def)
        next
          fix c assume "c \<in> scanned bs_max bs_div ?n"
          then have "c = ccand \<or> c \<in> scanned bs_max bs_div ccand" using sub by auto
          then show "padding rows best \<le> padding rows c"
            using p less.prems(3,4) by (auto simp: best_of_def)
        next
          fix c assume "c \<in> scanned bs_max bs_div ?n"
          then have "c = ccand \<or> c \<in> scanned bs_max bs_div ccand" using sub by auto
          then show "padding rows c = padding rows best \<longrightarrow> c \<le> best"
            using p bge less.prems(3,4) by (auto simp: best_of_def)
        qed
        from less.IH [OF n(1) n(2) dn this less.prems(4)]
        show ?thesis using True dv assms al p
          by (simp add: finetune_loop.simps [of _ _ ccand])
      qed
    qed
  qed
qed

lemma finetuneBlockSize_examined:
  assumes "rows < 2 ^ 64" "bs_max < 2 ^ 64" "0 < bs_div" "0 < bs_max"
  shows "\<exists>r. finetuneBlockSize rows bs_max bs_div = Inr r
           \<and> best_of rows (examined bs_max bs_div) r"
proof -
  from penalty_is_padding [OF assms(1,2,4)] obtain al where
    al: "alignTo rows bs_max = Inr al" "sub64 al rows = padding rows bs_max" by blast
  have "best_of rows (scanned bs_max bs_div bs_max) bs_max"
    by (simp add: best_of_def scanned_def)
  from finetune_loop_best [OF assms(1,3,2,4) le_refl _ this refl]
  show ?thesis using al by (simp add: finetuneBlockSize_def)
qed

text \<open>
  C6, as amended. For \<open>bs_max \<ge> bs_div > 0\<close> (all of them \<open>uint64_t\<close> values),
  \<open>finetuneBlockSize\<close> returns the best of the candidates it examines: \<open>bs_max\<close>,
  and the multiples of \<open>bs_div\<close> among \<open>bs_max - k * bs_div\<close> that are strictly
  greater than \<open>bs_div\<close>. No examined candidate pads less, ties go to the largest, and
  the result never pads more than \<open>bs_max\<close>. The candidate \<open>bs_div\<close> itself is not
  examined (unless it is \<open>bs_max\<close>).
\<close>

theorem finetuneBlockSize_best:
  assumes "rows < 2 ^ 64" "bs_max < 2 ^ 64" "0 < bs_div" "bs_div \<le> bs_max"
  shows "\<exists>r. finetuneBlockSize rows bs_max bs_div = Inr r
           \<and> best_of rows (examined bs_max bs_div) r
           \<and> padding rows r \<le> padding rows bs_max"
proof -
  have "0 < bs_max" using assms by simp
  from finetuneBlockSize_examined [OF assms(1,2,3) this] obtain r where
    r: "finetuneBlockSize rows bs_max bs_div = Inr r" "best_of rows (examined bs_max bs_div) r"
    by blast
  have "bs_max \<in> examined bs_max bs_div" by (simp add: examined_def)
  then have "padding rows r \<le> padding rows bs_max" using r(2) by (simp add: best_of_def)
  then show ?thesis using r by blast
qed

theorem finetuneBlockSize_best_witness:
  "\<exists>r. finetuneBlockSize 7 12 4 = Inr r \<and> best_of 7 (examined 12 4) r
      \<and> padding 7 r \<le> padding 7 12"
  using finetuneBlockSize_best [of 7 12 4] by simp

text \<open>
  C6 as stated fails: with 5 rows, \<open>bs_max = 10\<close> and \<open>bs_div = 5\<close> the listed
  candidates are 10 and 5, and 5 pads nothing, but the loop stops before it and
  returns 10, which pads 5 rows.
\<close>

theorem finetuneBlockSize_counterexample:
  "finetuneBlockSize 5 10 5 = Inr 10 \<and> 5 \<in> listed 10 5
    \<and> padding 5 5 < padding 5 10 \<and> \<not> best_of 5 (listed 10 5) 10"
proof -
  have a: "finetuneBlockSize 5 10 5 = Inr 10"
    by (simp add: finetuneBlockSize_def alignTo_def sub64_def finetune_loop.simps)
  have b: "(5::nat) \<in> listed 10 5" by (simp add: listed_def)
  have c: "padding 5 5 < padding 5 10" by (simp add: padding_def)
  have "\<not> best_of 5 (listed 10 5) 10"
  proof
    assume "best_of 5 (listed 10 5) 10"
    then have "padding 5 10 \<le> padding 5 5" using b unfolding best_of_def by blast
    then show False using c by simp
  qed
  with a b c show ?thesis by blast
qed

section \<open>Properties of the thresholding functions\<close>

lemma crossed_bound: "crossed T v r \<le> int (length T)"
  by (simp add: crossed_def)

lemma countCrossed_take:
  assumes "length T < 2 ^ 31" "\<forall>row\<in>set T. r < length row" "n \<le> length T"
  shows "forM [0..<n] (\<lambda>t postthres.
       andThen (readAt T t) (\<lambda>row.
       andThen (readAt row r) (\<lambda>th.
         add32 postthres (if v \<ge> th then 1 else 0)))) 0 = Inr (crossed (take n T) v r)"
  using assms(3)
proof (induction n)
  case 0
  then show ?case by (simp add: crossed_def)
next
  case (Suc n)
  then have n: "n < length T" by simp
  have c: "crossed (take n T) v r \<le> int n"
    using crossed_bound [of "take n T" v r] n by simp
  have "r < length (T ! n)" using assms(2) n by simp
  then show ?case using Suc n c assms(1)
    by (simp add: forM_append readAt_def add32_def crossed_def take_Suc_conv_app_nth)
qed

lemma countCrossed_crossed:
  assumes "length T < 2 ^ 31" "\<forall>row\<in>set T. r < length row"
  shows "countCrossed T v r = Inr (crossed T v r)"
  using countCrossed_take [OF assms le_refl] by (simp add: countCrossed_def)

lemma threshold_rows:
  assumes "T \<noteq> []" "length T < 2 ^ 31" "\<forall>row\<in>set T. length row = length (T ! 0)"
  shows "threshold x T =
           (if x = [] then Inr []
            else if length (T ! 0) \<noteq> length x then Inl NotImplemented
            else Inr (map (\<lambda>r. crossed T (x ! r) r) [0..<length x]))"
proof -
  have t0: "readAt T 0 = Inr (T ! 0)" using assms(1) by (simp add: readAt_def)
  show ?thesis
  proof (cases "x = []")
    case True
    then show ?thesis using t0 by (simp add: threshold_def)
  next
    case ne: False
    show ?thesis
    proof (cases "length (T ! 0) = length x")
      case False
      from ne have "[0..<length x] = 0 # [1..<length x]" by (simp add: upt_conv_Cons)
      then show ?thesis using t0 False ne by (simp add: threshold_def)
    next
      case True
      have rows: "\<forall>row\<in>set T. length row = length x" using assms(3) True by simp
      have each: "\<And>r. r < length x \<Longrightarrow> countCrossed T (x ! r) r = Inr (crossed T (x ! r) r)"
        using countCrossed_crossed [OF assms(2)] rows by simp
      have "threshold x T = forM [0..<length x]
              (\<lambda>r ret. andThen (countCrossed T (x ! r) r) (\<lambda>p. Inr (ret @ [p]))) []"
        unfolding threshold_def using t0 True
        by (simp, intro forM_cong_on) (simp add: readAt_def)
      also have "\<dots> = Inr ([] @ map (\<lambda>r. crossed T (x ! r) r) [0..<length x])"
        by (rule forM_collect) (rule each)
      finally show ?thesis using True ne by simp
    qed
  qed
qed

lemma fused_is_composed:
  assumes "bitSerialMatrixVector A x cols Asigned xsigned = Inr acc"
  shows "bitSerialMatrixVectorThreshold A x T cols Asigned xsigned = threshold (map sint acc) T"
proof -
  from assms obtain a0 where a0: "readAt A 0 = Inr a0"
    and run: "forM [0..<length A] (\<lambda>r ret.
         andThen (rowAccumulate A x (length a0) Asigned xsigned r) (\<lambda>rowres.
           Inr (ret @ [rowres]))) [] = Inr acc"
    by (auto simp: bitSerialMatrixVector_def andThen_eq_Inr)
  from forM_collect_Inr [OF run] obtain g where
    g: "\<forall>r<length A. rowAccumulate A x (length a0) Asigned xsigned r = Inr (g r)"
    and acc: "acc = map g [0..<length A]" by auto
  have len: "length acc = length A" using acc by simp
  show ?thesis
  proof (cases "T = []")
    case True
    then show ?thesis using a0
      by (simp add: bitSerialMatrixVectorThreshold_def threshold_def readAt_def)
  next
    case False
    then have t0: "readAt T 0 = Inr (T ! 0)" by (simp add: readAt_def)
    show ?thesis
      unfolding bitSerialMatrixVectorThreshold_def threshold_def
      using a0 t0 len
      by (simp, intro forM_cong_on) (simp add: readAt_def g acc)
  qed
qed

text \<open>
  C9, as amended. For a threshold matrix \<open>T\<close> that has a row, fewer than \<open>2 ^ 31\<close>
  rows, and rows of one length: \<open>threshold\<close> returns the empty vector for an empty
  \<open>x\<close> whatever the number of channels; for a non-empty \<open>x\<close> it throws "not
  implemented" exactly when \<open>T[0].size()\<close> differs from the number of rows, and
  otherwise entry \<open>r\<close> counts the thresholds \<open>t\<close> with \<open>x[r] >= T[t][r]\<close>.
  \<open>bitSerialMatrixVectorThreshold\<close> returns what \<open>threshold\<close> returns on the
  accumulated values of \<open>bitSerialMatrixVector\<close>, whenever these are defined.
\<close>

theorem threshold_counts:
  assumes "T \<noteq> []" "length T < 2 ^ 31" "\<forall>row\<in>set T. length row = length (T ! 0)"
  shows "threshold x T =
           (if x = [] then Inr []
            else if length (T ! 0) \<noteq> length x then Inl NotImplemented
            else Inr (map (\<lambda>r. crossed T (x ! r) r) [0..<length x]))
       \<and> (\<forall>acc. bitSerialMatrixVector A y cols Asigned ysigned = Inr acc \<longrightarrow>
            bitSerialMatrixVectorThreshold A y T cols Asigned ysigned
              = threshold (map sint acc) T)"
  using threshold_rows [OF assms] fused_is_composed by blast

theorem threshold_counts_witness:
  "threshold [5, 2] [[1, 2], [3, 3], [6, 0]] = Inr [2, 2]
   \<and> bitSerialMatrixVectorThreshold [[{0, 1}, {1}], [{0}, {}]] [{0, 1}, {1}]
        [[1, 2], [3, 3], [6, 0]] 2 False False = Inr [3, 1]"
proof -
  let ?T = "[[1, 2], [3, 3], [6, 0 :: int]]"
  let ?A = "[[{0, 1}, {1}], [{0}, {} :: nat set]]"
  let ?y = "[{0, 1}, {1 :: nat}]"
  have acc: "bitSerialMatrixVector ?A ?y 2 False False = Inr [10, 1]"
    by (simp add: bitSerialMatrixVector_def rowAccumulate_def contribution_def readAt_def
        add64_def sub64_def upt_conv_Cons)
  have T: "?T \<noteq> []" "length ?T < 2 ^ 31" "\<forall>row\<in>set ?T. length row = length (?T ! 0)"
    by simp_all
  note th = threshold_counts [OF T, where A = ?A and y = ?y and cols = 2
      and Asigned = False and ysigned = False]
  have a: "threshold [5, 2] ?T = Inr [2, 2]"
    using th [of "[5, 2]"] by (simp add: crossed_def upt_conv_Cons)
  have b: "bitSerialMatrixVectorThreshold ?A ?y ?T 2 False False = Inr [3, 1]"
    using th [of "[10, 1]"] acc by (simp add: crossed_def upt_conv_Cons)
  from a b show ?thesis by simp
qed

text \<open>
  C9 as stated fails for an empty accumulate vector: the check sits inside the loop
  over the rows, so three channels against zero rows throw nothing.
\<close>

theorem threshold_counterexample:
  "length ([[1, 2, 3]] ! 0 :: int list) \<noteq> length ([] :: int list)
   \<and> threshold [] [[1, 2, 3]] = Inr []"
  by (simp add: threshold_def readAt_def)

section \<open>Properties of alloc\<close>

text \<open>
  C3, as amended. \<open>alloc\<close> checks neither \<open>nbits\<close> nor \<open>colalign\<close> and does not
  zero the buffer. Whenever both alignments are non-zero (so that \<open>alignTo\<close>
  returns), with \<open>n = nbits * nrows_a * (ncols_a / 64)\<close> words (a product in
  \<open>uint64_t\<close>): if the byte count \<open>8 * n\<close> is below \<open>2 ^ 63\<close> and the allocator serves
  the request, \<open>alloc\<close> returns a matrix with the given fields, the aligned sizes and a
  buffer of \<open>n\<close> uninitialised words, which \<open>clearAll\<close> then sets to zero; if the
  allocator does not serve it, \<open>alloc\<close> throws \<open>std::bad_alloc\<close>; and from \<open>2 ^ 63\<close>
  bytes on it throws \<open>std::bad_array_new_length\<close>.
\<close>

theorem alloc_unchecked:
  assumes "alignTo nr rowalign = Inr nra" "alignTo nc colalign = Inr nca"
    and "n = mul64 nb (mul64 nra (nca div 64))"
  shows "(n * 8 < 2 ^ 63 \<longrightarrow>
           (\<exists>m. alloc (Some mem) nb nr nc signd rowalign colalign = Inr m
              \<and> issigned m = signd \<and> nbits m = nb \<and> nrows m = nr \<and> ncols m = nc
              \<and> nrows_a m = nra \<and> ncols_a m = nca
              \<and> data m = map mem [0..<n]
              \<and> clearAll m = Inr (m\<lparr>data := replicate n 0\<rparr>))
           \<and> alloc None nb nr nc signd rowalign colalign = Inl BadAlloc)
       \<and> (2 ^ 63 \<le> n * 8 \<longrightarrow> alloc heap nb nr nc signd rowalign colalign = Inl BadArrayLength)"
proof (intro conjI impI)
  let ?m = "\<lparr>issigned = signd, nbits = nb, nrows = nr, ncols = nc,
             nrows_a = nra, ncols_a = nca, data = map mem [0..<n]\<rparr>"
  assume small: "n * 8 < 2 ^ 63"
  have a: "alloc (Some mem) nb nr nc signd rowalign colalign = Inr ?m"
    using assms small
    by (simp add: alloc_def newArray_def wordsPerBitplane_def wordsPerRow_def Let_def)
  have "n * 8 < 2 ^ 64" using small by simp
  then have "mul64 n 8 div 8 = n" by (simp add: mul64_def)
  then have "clearAll ?m = Inr (?m\<lparr>data := replicate n 0\<rparr>)"
    using assms(3) by (simp add: clearAll_def wordsPerBitplane_def wordsPerRow_def Let_def)
  with a show "\<exists>m. alloc (Some mem) nb nr nc signd rowalign colalign = Inr m
              \<and> issigned m = signd \<and> nbits m = nb \<and> nrows m = nr \<and> ncols m = nc
              \<and> nrows_a m = nra \<and> ncols_a m = nca
              \<and> data m = map mem [0..<n]
              \<and> clearAll m = Inr (m\<lparr>data := replicate n 0\<rparr>)" by simp
  show "alloc None nb nr nc signd rowalign colalign = Inl BadAlloc"
    using assms small
    by (simp add: alloc_def newArray_def wordsPerBitplane_def wordsPerRow_def Let_def)
next
  assume "2 ^ 63 \<le> n * 8"
  then show "alloc heap nb nr nc signd rowalign colalign = Inl BadArrayLength"
    using assms
    by (simp add: alloc_def newArray_def wordsPerBitplane_def wordsPerRow_def Let_def)
qed

theorem alloc_unchecked_witness:
  "(\<exists>m. alloc (Some (\<lambda>i. 1)) 3 5 70 False 8 128 = Inr m \<and> nrows_a m = 8 \<and> ncols_a m = 128
      \<and> data m = replicate 48 1 \<and> clearAll m = Inr (m\<lparr>data := replicate 48 0\<rparr>))
   \<and> alloc None 3 5 70 False 8 128 = Inl BadAlloc
   \<and> alloc (Some (\<lambda>i. 1)) 1 (2 ^ 60) 64 False 1 64 = Inl BadArrayLength"
proof -
  have a: "alignTo 5 8 = Inr 8" "alignTo 70 128 = Inr 128"
    by (simp_all add: alignTo_def add64_def)
  have n: "(48::nat) = mul64 3 (mul64 8 (128 div 64))"
    by (simp add: mul64_def)
  have "map (\<lambda>i. 1 :: 64 word) [0..<48] = replicate 48 1"
    by (simp add: map_replicate_const [of _ "[0..<48]", simplified])
  then have small: "(\<exists>m. alloc (Some (\<lambda>i. 1)) 3 5 70 False 8 128 = Inr m
      \<and> nrows_a m = 8 \<and> ncols_a m = 128
      \<and> data m = replicate 48 1 \<and> clearAll m = Inr (m\<lparr>data := replicate 48 0\<rparr>))
    \<and> alloc None 3 5 70 False 8 128 = Inl BadAlloc"
    using alloc_unchecked [OF a n, where mem = "\<lambda>i. 1" and signd = False] by auto
  have b: "alignTo (2 ^ 60) 1 = Inr (2 ^ 60)" "alignTo 64 64 = Inr 64"
    by (simp_all add: alignTo_def)
  have m: "(2 ^ 60 :: nat) = mul64 1 (mul64 (2 ^ 60) (64 div 64))"
    by (simp add: mul64_def)
  have "alloc (Some (\<lambda>i. 1)) 1 (2 ^ 60) 64 False 1 64 = Inl BadArrayLength"
    using alloc_unchecked [OF b m, where heap = "Some (\<lambda>i. 1)" and signd = False] by simp
  with small show ?thesis by blast
qed

text \<open>
  C3 as stated fails. A \<open>colalign\<close> of 96 is accepted and the buffer keeps what the
  memory held; \<open>nbits = 0\<close> and \<open>nbits = 65\<close> are accepted; and a word count that
  overflows (\<open>2 * 2 ^ 63\<close>) wraps to zero and gives an empty buffer.
\<close>

theorem alloc_counterexample:
  "alloc (Some (\<lambda>i. 1)) 1 1 1 False 1 96
     = Inr \<lparr>issigned = False, nbits = 1, nrows = 1, ncols = 1, nrows_a = 1, ncols_a = 96,
            data = [1]\<rparr>
   \<and> alloc (Some (\<lambda>i. 1)) 0 1 1 False 1 64
     = Inr \<lparr>issigned = False, nbits = 0, nrows = 1, ncols = 1, nrows_a = 1, ncols_a = 64,
            data = []\<rparr>
   \<and> (\<exists>m. alloc (Some (\<lambda>i. 1)) 65 1 1 False 1 64 = Inr m \<and> data m = replicate 65 1)
   \<and> alloc (Some (\<lambda>i. 1)) 2 (2 ^ 63) 64 False 1 64
     = Inr \<lparr>issigned = False, nbits = 2, nrows = 2 ^ 63, ncols = 64, nrows_a = 2 ^ 63,
            ncols_a = 64, data = []\<rparr>"
proof -
  have "map (\<lambda>i. 1 :: 64 word) [0..<65] = replicate 65 1"
    by (simp add: map_replicate_const [of _ "[0..<65]", simplified])
  then show ?thesis
    by (simp add: alloc_def newArray_def alignTo_def add64_def mul64_def wordsPerBitplane_def
        wordsPerRow_def Let_def)
qed

section \<open>Properties of the rounding\<close>

lemma rne_of_int [simp]: "rne (of_int z) = z"
  by (simp add: rne_def)

lemma rne_error: "\<bar>of_int (rne y) - y\<bar> \<le> 1 / 2"
proof -
  have "of_int \<lfloor>y\<rfloor> \<le> y" "y < of_int \<lfloor>y\<rfloor> + 1" by linarith+
  then show ?thesis by (auto simp: rne_def Let_def)
qed

lemma quantum_pos: "0 < quantum F x"
  by (cases F) (simp add: quantum_def)

lemma quantum_le:
  assumes "x \<noteq> 0" "\<bar>x\<bar> < 2 powr of_int k" "emin < k"
  shows "quantum (p, emin, emax) x \<le> 2 powr of_int (k - int p)"
proof -
  have "log 2 \<bar>x\<bar> < of_int k" using assms(1,2) by (simp add: log_less_iff)
  then have "\<lfloor>log 2 \<bar>x\<bar>\<rfloor> < k" by linarith
  then have "max emin \<lfloor>log 2 \<bar>x\<bar>\<rfloor> - int p + 1 \<le> k - int p" using assms(3) by simp
  then show ?thesis unfolding quantum_def by (simp del: of_int_diff of_int_add)
qed

lemma fl_round_error:
  assumes "\<bar>x\<bar> < 2 powr of_int k" "emin < k" "k \<le> emax"
  shows "\<exists>r. fl_round (p, emin, emax) x = Fin r \<and> \<bar>r - x\<bar> \<le> 2 powr of_int (k - int p) / 2"
proof (cases "x = 0")
  case True
  then show ?thesis by (simp add: fl_round_def)
next
  case False
  let ?F = "(p, emin, emax)"
  let ?u = "quantum ?F x"
  let ?r = "of_int (rne (x / ?u)) * ?u"
  have u: "0 < ?u" by (rule quantum_pos)
  have ule: "?u \<le> 2 powr of_int (k - int p)" by (rule quantum_le [OF False assms(1,2)])
  have "\<bar>?r - x\<bar> = \<bar>of_int (rne (x / ?u)) - x / ?u\<bar> * ?u"
  proof -
    have "?r - x = (of_int (rne (x / ?u)) - x / ?u) * ?u" using u by (simp add: field_simps)
    then show ?thesis using u by (simp add: abs_mult)
  qed
  also have "\<dots> \<le> 1 / 2 * ?u"
    by (rule mult_right_mono [OF rne_error]) (use u in simp)
  also have "\<dots> \<le> 2 powr of_int (k - int p) / 2" using ule by simp
  finally have err: "\<bar>?r - x\<bar> \<le> 2 powr of_int (k - int p) / 2" .
  have "(2::real) powr of_int (k - int p) \<le> 2 powr of_int k"
    by (intro powr_mono) simp_all
  then have "\<bar>?r\<bar> < 2 powr of_int k + 2 powr of_int k" using err assms(1) by linarith
  also have "\<dots> = 2 powr of_int (k + 1)" by (simp add: powr_add)
  also have "\<dots> \<le> 2 powr of_int (emax + 1)" using assms(3) by (intro powr_mono) simp_all
  finally have "\<not> 2 powr of_int (emax + 1) \<le> \<bar>?r\<bar>" by simp
  then have "fl_round ?F x = Fin ?r" using False by (simp add: fl_round_def Let_def)
  with err show ?thesis by blast
qed

lemma fl_round_exact:
  assumes m: "\<bar>m\<bar> < 2 ^ p" and j: "emin - int p + 1 \<le> j" "int p + j \<le> emax + 1"
  shows "fl_round (p, emin, emax) (of_int m * 2 powr of_int j) = Fin (of_int m * 2 powr of_int j)"
proof (cases "m = 0")
  case True
  then show ?thesis by (simp add: fl_round_def)
next
  case False
  let ?F = "(p, emin, emax)"
  let ?x = "of_int m * 2 powr of_int j :: real"
  let ?E = "max emin \<lfloor>log 2 \<bar>?x\<bar>\<rfloor>"
  have x0: "?x \<noteq> 0" using False by simp
  have ax: "\<bar>?x\<bar> = of_int \<bar>m\<bar> * 2 powr of_int j" by (simp add: abs_mult)
  have "real_of_int \<bar>m\<bar> < 2 ^ p" using m by (metis of_int_less_numeral_power_cancel_iff)
  then have "real_of_int \<bar>m\<bar> < 2 powr of_int (int p)" by (simp add: powr_realpow)
  then have "\<bar>?x\<bar> < 2 powr of_int (int p) * 2 powr of_int j"
    unfolding ax by (intro mult_strict_right_mono) simp_all
  then have lt: "\<bar>?x\<bar> < 2 powr of_int (int p + j)" by (simp add: powr_add)
  then have "log 2 \<bar>?x\<bar> < of_int (int p + j)" using x0 by (simp add: log_less_iff)
  then have "\<lfloor>log 2 \<bar>?x\<bar>\<rfloor> < int p + j" by linarith
  then have d: "0 \<le> j - (?E - int p + 1)" using j(1) by simp
  define d where "d = nat (j - (?E - int p + 1))"
  define u where "u = quantum ?F ?x"
  define w where "w = (2::real) powr of_int j"
  have upos: "0 < u" unfolding u_def by (rule quantum_pos)
  have u: "u = 2 powr of_int (?E - int p + 1)" by (simp add: u_def quantum_def)
  have split: "w = u * 2 ^ d"
  proof -
    have "of_int j = of_int (?E - int p + 1) + real d" using d by (simp add: d_def)
    then have "(2::real) powr of_int j = 2 powr (of_int (?E - int p + 1) + real d)" by simp
    also have "\<dots> = 2 powr of_int (?E - int p + 1) * 2 powr real d" by (rule powr_add)
    finally show ?thesis unfolding w_def u by (simp add: powr_realpow)
  qed
  have q: "of_int m * w / u = of_int (m * 2 ^ d)"
    unfolding split using upos by simp
  have "of_int (rne (of_int m * w / u)) * u = of_int m * w"
    unfolding q rne_of_int unfolding split by simp
  then have r: "of_int (rne (?x / quantum ?F ?x)) * quantum ?F ?x = ?x"
    unfolding u_def w_def .
  have "(2::real) powr of_int (int p + j) \<le> 2 powr of_int (emax + 1)"
    using j(2) by (intro powr_mono) simp_all
  then have "\<not> 2 powr of_int (emax + 1) \<le> \<bar>?x\<bar>" using lt by linarith
  then show ?thesis using x0 r by (simp add: fl_round_def Let_def)
qed

lemma round32_exact:
  assumes "\<bar>m\<bar> < 2 ^ 24" "j \<le> 100"
  shows "fl_round binary32 (of_int m * 2 ^ j) = Fin (of_int m * 2 ^ j)"
proof -
  have "fl_round (24, - 126, 127) (of_int m * 2 powr of_int (int j))
      = Fin (of_int m * 2 powr of_int (int j))"
    by (rule fl_round_exact) (use assms in simp_all)
  then show ?thesis by (simp add: binary32_def powr_realpow)
qed

lemma round32_error:
  assumes "\<bar>x\<bar> < 2 ^ k" "k \<le> 127"
  shows "\<exists>r. fl_round binary32 x = Fin r \<and> \<bar>r - x\<bar> \<le> 2 ^ k / 2 ^ 25"
proof -
  have "\<bar>x\<bar> < 2 powr of_int (int k)" using assms(1) by (simp add: powr_realpow)
  from fl_round_error [OF this, of "- 126" 127 24] assms(2)
  obtain r where r: "fl_round binary32 x = Fin r" "\<bar>r - x\<bar> \<le> 2 powr of_int (int k - 24) / 2"
    by (auto simp: binary32_def)
  have "(2::real) powr of_int (int k - 24) = 2 powr (real k - 24)" by simp
  also have "\<dots> = 2 powr real k / 2 powr 24" by (rule powr_diff)
  also have "\<dots> = 2 ^ k / 2 ^ 24" 
    using powr_realpow [of "2::real" 24] by (simp add: powr_realpow)
  finally have "(2::real) powr of_int (int k - 24) / 2 = 2 ^ k / 2 ^ 25" by simp
  with r show ?thesis by auto
qed

lemma round32_int:
  assumes "\<bar>m\<bar> < 2 ^ 24"
  shows "fl_round binary32 (of_int m) = Fin (of_int m)"
  using round32_exact [OF assms, of 0] by simp

lemma round32_between:
  assumes "lo \<le> x" "x \<le> hi" "- (2 ^ k) < lo" "hi < 2 ^ k" "k \<le> 127"
  shows "\<exists>r. fl_round binary32 x = Fin r \<and> lo - 2 ^ k / 2 ^ 25 \<le> r \<and> r \<le> hi + 2 ^ k / 2 ^ 25"
proof -
  have "\<bar>x\<bar> < 2 ^ k" using assms(1-4) by linarith
  from round32_error [OF this assms(5)] obtain r where
    "fl_round binary32 x = Fin r" "\<bar>r - x\<bar> \<le> 2 ^ k / 2 ^ 25" by blast
  then show ?thesis using assms(1,2) by (intro exI [of _ r]) linarith
qed

lemma fl_round_binade:
  assumes "2 powr of_int e \<le> \<bar>x\<bar>" "\<bar>x\<bar> < 2 powr of_int (e + 1)" "emin \<le> e" "e < emax"
  shows "fl_round (p, emin, emax) x
       = Fin (of_int (rne (x / 2 powr of_int (e - int p + 1))) * 2 powr of_int (e - int p + 1))"
proof -
  have x0: "x \<noteq> 0" using assms(1) by (smt (verit) powr_gt_zero)
  then have "\<lfloor>log 2 \<bar>x\<bar>\<rfloor> = e" using assms(1,2) by (simp add: floor_log_eq_powr_iff)
  then have q: "quantum (p, emin, emax) x = 2 powr of_int (e - int p + 1)"
    using assms(3) by (simp add: quantum_def max_def)
  from fl_round_error [OF assms(2), of emin emax p] assms(3,4)
  obtain r where "fl_round (p, emin, emax) x = Fin r" by auto
  then show ?thesis using x0 unfolding fl_round_def q
    by (auto simp: Let_def split: if_splits)
qed

lemma round32_binade:
  assumes "2 ^ k \<le> \<bar>x\<bar>" "\<bar>x\<bar> < 2 ^ (k + 1)" "23 \<le> k" "k < 127"
  shows "fl_round binary32 x = Fin (of_int (rne (x / 2 ^ (k - 23))) * 2 ^ (k - 23))"
proof -
  have a: "2 powr of_int (int k) \<le> \<bar>x\<bar>" "\<bar>x\<bar> < 2 powr of_int (int k + 1)"
    using assms(1,2) by (simp_all add: powr_realpow powr_add)
  have "fl_round (24, - 126, 127) x
       = Fin (of_int (rne (x / 2 powr of_int (int k - int 24 + 1)))
               * 2 powr of_int (int k - int 24 + 1))"
    by (rule fl_round_binade [OF a]) (use assms in simp_all)
  moreover have "(2::real) powr of_int (int k - int 24 + 1) = 2 ^ (k - 23)"
  proof -
    have "int k - int 24 + 1 = int (k - 23)" using assms(3) by simp
    then have "(2::real) powr of_int (int k - int 24 + 1) = 2 powr real (k - 23)"
      by (simp del: of_nat_diff)
    then show ?thesis by (simp only: powr_realpow)
  qed
  ultimately show ?thesis unfolding binary32_def by simp
qed

section \<open>Properties of the block-size solver\<close>

lemma sqrt_20971520: "4579 < sqrt 20971520" "sqrt 20971520 < 4580"
proof -
  show "4579 < sqrt 20971520" by (rule real_less_rsqrt) simp
  show "sqrt 20971520 < 4580" by (rule real_less_lsqrt) simp_all
qed

lemma toward_zero_of_int [simp]: "toward_zero (of_int z) = z"
  by (simp add: toward_zero_def)

lemma computeBlockSize_4_4:
  "computeBlockSize (Fin 4) (Fin 4) (Fin 65536) (Fin 256) = Inr (76, 76)"
proof -
  have e: "fl_round binary32 4 = Fin 4" "fl_round binary32 2 = Fin 2"
    "fl_round binary32 16 = Fin 16" "fl_round binary32 64 = Fin 64"
    "fl_round binary32 8 = Fin 8" "fl_round binary32 2048 = Fin 2048"
    "fl_round binary32 4194304 = Fin 4194304" "fl_round binary32 256 = Fin 256"
    "fl_round binary32 128 = Fin 128" "fl_round binary32 19 = Fin 19"
    "fl_round binary32 76 = Fin 76"
    using round32_int [of 4] round32_int [of 2] round32_int [of 16] round32_int [of 64]
      round32_int [of 8] round32_int [of 2048] round32_int [of 4194304] round32_int [of 256]
      round32_int [of 128] round32_int [of 19] round32_int [of 76]
    by simp_all
  have e2: "fl_round binary32 (- 16777216) = Fin (- 16777216)"
    "fl_round binary32 20971520 = Fin 20971520"
    using round32_exact [of "- 1" 24] round32_exact [of 5 22] by simp_all
  let ?s = "sqrt 20971520"
  from round32_between [of ?s ?s ?s 13] sqrt_20971520 obtain d where
    d: "fl_round binary32 ?s = Fin d" "4578 < d" "d < 4581" by auto
  from round32_between [of "2530" "d - 2048" 2533 12] d(2,3) obtain n0 where
    n0: "fl_round binary32 (d - 2048) = Fin n0" "2529 < n0" "n0 < 2534" by auto
  from round32_between [of "2529 / 128" "n0 / 128" "2534 / 128" 5] n0(2,3) obtain q0 where
    q0: "fl_round binary32 (n0 / 128) = Fin q0" "19 < q0" "q0 < 20" by auto
  have f0: "\<lfloor>q0\<rfloor> = 19" by (rule floor_unique) (use q0 in simp_all)
  from round32_between [of "- 6629" "- 2048 - d" "- 6626" 13] d(2,3) obtain n1 where
    n1: "fl_round binary32 (- 2048 - d) = Fin n1" "- 6630 < n1" "n1 < - 6625" by auto
  from round32_between [of "- 6630 / 128" "n1 / 128" "- 6625 / 128" 6] n1(2,3) obtain q1 where
    q1: "fl_round binary32 (n1 / 128) = Fin q1" "- 52 < q1" "q1 < - 51" by auto
  have f1: "\<lfloor>q1\<rfloor> = - 52" by (rule floor_unique) (use q1 in simp_all)
  have pos: "0 < d" using d by simp
  show ?thesis
    unfolding computeBlockSize_def
    by (simp add: of_uint64_def of_int64_def fl_sub_def e e2 d n0 q0 f0 n1 q1 f1 pos Let_def
        toward_zero_def)
qed

text \<open>
  C5 at \<open>mL = mR = 4\<close>, \<open>d = 256\<close>, \<open>cacheBits = 65536\<close>: the solver returns
  \<open>(76, 76)\<close>, which meets the constraint with 4 bits for each result but not the
  one with 32. Here \<open>a\<close>, \<open>b\<close>, \<open>c\<close> and the argument of the root are integers
  that \<open>float\<close> holds exactly, and the quotient, about 19.78, is far from an integer:
  the three roundings (of the root, of the sum and of the quotient) do not move it.
\<close>

theorem computeBlockSize_scenario:
  "computeBlockSize (Fin 4) (Fin 4) (Fin 65536) (Fin 256) = Inr (76, 76)
   \<and> \<not> (32 * 76 * 76 + 256 * (76 + 76) \<le> (65536 :: nat))
   \<and> 4 * 76 * 76 + 256 * (76 + 76) \<le> (65536 :: nat)"
  using computeBlockSize_4_4 by simp

text \<open>
  Two inputs where the rounding decides. At \<open>(4, 4, 131327, 8192)\<close> the argument of the
  root, 4328587008, lies half-way between two \<open>float\<close>s and goes to the even one,
  \<open>65792\<^sup>2\<close>: the root is 65792 and the blocks are \<open>(8, 8)\<close>, where the real root, just
  below 65792, would give \<open>(4, 4)\<close>. At \<open>(1, 1, 16386, 8192)\<close> the root of 268697632
  is rounded up to 16392 and the blocks are \<open>(1, 1)\<close>, where the real root would fail
  the assertion \<open>x > 0\<close>.
\<close>

lemma rne_half: "rne (8454271 + 1 / 2) = 8454272"
proof -
  have "\<lfloor>8454271 + 1 / 2 :: real\<rfloor> = 8454271" by (rule floor_unique) simp_all
  then show ?thesis by (simp add: rne_def Let_def)
qed

lemma tie: "fl_round binary32 4328587008 = Fin 4328587264"
proof -
  have "(4328587008::real) / 2 ^ (32 - 23) = 8454271 + 1 / 2" by simp
  then show ?thesis
    using round32_binade [of 32 4328587008] rne_half by simp
qed

lemma computeBlockSize_tie:
  "computeBlockSize (Fin 4) (Fin 4) (Fin 131327) (Fin 8192) = Inr (8, 8)"
proof -
  have e: "fl_round binary32 4 = Fin 4" "fl_round binary32 2 = Fin 2"
    "fl_round binary32 16 = Fin 16" "fl_round binary32 64 = Fin 64"
    "fl_round binary32 8 = Fin 8" "fl_round binary32 65536 = Fin 65536"
    "fl_round binary32 256 = Fin 256"
    "fl_round binary32 128 = Fin 128" 
    "fl_round binary32 65792 = Fin 65792"
    "fl_round binary32 (- 131328) = Fin (- 131328)"
    "fl_round binary32 (- 1026) = Fin (- 1026)"
    using round32_int [of 4] round32_int [of 2] round32_int [of 16] round32_int [of 64]
      round32_int [of 8] round32_int [of 65536] round32_int [of 256]
      round32_int [of 128] round32_int [of 65792] round32_int [of "- 131328"]
      round32_int [of "- 1026"]
    by simp_all
  have e2: "fl_round binary32 4294967296 = Fin 4294967296"
    "fl_round binary32 (- 33619712) = Fin (- 33619712)"
    using round32_exact [of "1" 32] round32_exact [of "- 8404928" 2] by simp_all
  have s: "sqrt 4328587264 = 65792"
    by (rule real_sqrt_unique) simp_all
  show ?thesis
    unfolding computeBlockSize_def
    by (simp add: of_uint64_def of_int64_def fl_sub_def e e2 tie s Let_def toward_zero_def)
qed

lemma near: "fl_round binary32 (sqrt 268697632) = Fin 16392"
proof -
  let ?s = "sqrt 268697632"
  have lo: "16392 - 1 / 1024 < ?s" by (rule real_less_rsqrt) (simp add: power2_eq_square)
  have hi: "?s < 16392" by (rule real_less_lsqrt) simp_all
  have a: "2 powr of_int 14 \<le> \<bar>?s\<bar>" "\<bar>?s\<bar> < 2 powr of_int (14 + 1)"
    using lo hi by simp_all
  have u: "(2::real) powr - 9 = 1 / 512"
    using powr_int [of "2::real" "- 9"] by simp
  have f: "\<lfloor>?s * 512\<rfloor> = 8392703" by (rule floor_unique) (use lo hi in simp_all)
  have "rne (?s * 512) = 8392704" using lo hi by (simp add: rne_def Let_def f)
  then show ?thesis
    using fl_round_binade [OF a, of "- 126" 127 24] by (simp add: u binary32_def)
qed

lemma computeBlockSize_near:
  "computeBlockSize (Fin 1) (Fin 1) (Fin 16386) (Fin 8192) = Inr (1, 1)"
proof -
  have e: "fl_round binary32 4 = Fin 4" "fl_round binary32 2 = Fin 2"
    "fl_round binary32 16 = Fin 16" "fl_round binary32 1 = Fin 1"
    "fl_round binary32 8 = Fin 8" "fl_round binary32 16384 = Fin 16384"
    "fl_round binary32 (- 262176) = Fin (- 262176)"
    "fl_round binary32 (- 32776) = Fin (- 32776)"
    "fl_round binary32 (- 4097) = Fin (- 4097)"
    using round32_int [of 4] round32_int [of 2] round32_int [of 16] round32_int [of 1]
      round32_int [of 8] round32_int [of 16384] round32_int [of "- 262176"]
      round32_int [of "- 32776"] round32_int [of "- 4097"]
    by simp_all
  have e2: "fl_round binary32 268435456 = Fin 268435456"
    "fl_round binary32 268697632 = Fin 268697632"
    using round32_exact [of "1" 28] round32_exact [of "8396801" 5] by simp_all
  show ?thesis
    unfolding computeBlockSize_def
    by (simp add: of_uint64_def of_int64_def fl_sub_def e e2 near Let_def toward_zero_def)
qed

section \<open>Properties of BitSerialMatrix\<close>

lemma wellFormed_plane:
  assumes "wellFormed m"
  shows "nrows_a m * (ncols_a m div 64) < 2 ^ 64"
proof -
  have "nrows_a m * (ncols_a m div 64) \<le> nrows_a m * ncols_a m"
    by (intro mult_le_mono2) simp
  moreover have "nrows_a m * ncols_a m < 2 ^ 64" using assms by (simp add: wellFormed_def)
  ultimately show ?thesis by (rule le_less_trans)
qed

lemma sameShape_refl [simp]: "sameShape m m"
  by (simp add: sameShape_def)

lemma sameShape_trans: "sameShape m s \<Longrightarrow> sameShape s t \<Longrightarrow> sameShape m t"
  by (simp add: sameShape_def)

lemma sameShape_wellFormed: "sameShape m s \<Longrightarrow> wellFormed m \<Longrightarrow> wellFormed s"
  by (simp add: sameShape_def wellFormed_def)

lemma sameShape_allocated: "sameShape m s \<Longrightarrow> allocated s = allocated m"
  by (simp add: sameShape_def allocated_def)

lemma index_in_buffer:
  fixes b r cw nb nra wpr :: nat
  assumes "b < nb" "r < nra" "cw < wpr"
  shows "b * (nra * wpr) + r * wpr + cw < nb * (nra * wpr)"
proof -
  have "r * wpr + cw < Suc r * wpr" using assms(3) by simp
  also have "\<dots> \<le> nra * wpr" using assms(2) by (intro mult_le_mono1) simp
  finally have "b * (nra * wpr) + (r * wpr + cw) < Suc b * (nra * wpr)" by simp
  also have "\<dots> \<le> nb * (nra * wpr)" using assms(1) by (intro mult_le_mono1) simp
  finally show ?thesis by (simp add: add.assoc)
qed

lemma index_injective:
  fixes b r cw b' r' cw' nra wpr :: nat
  assumes "r < nra" "cw < wpr" "r' < nra" "cw' < wpr"
    and "b * (nra * wpr) + r * wpr + cw = b' * (nra * wpr) + r' * wpr + cw'"
  shows "b = b' \<and> r = r' \<and> cw = cw'"
proof -
  have e: "(b * nra + r) * wpr + cw = (b' * nra + r') * wpr + cw'"
    using assms(5) by (simp add: algebra_simps)
  have "((b * nra + r) * wpr + cw) div wpr = b * nra + r" using assms(2) by simp
  moreover have "((b' * nra + r') * wpr + cw') div wpr = b' * nra + r'" using assms(4) by simp
  ultimately have q: "b * nra + r = b' * nra + r'" using e by simp
  have "((b * nra + r) * wpr + cw) mod wpr = cw" using assms(2) by simp
  moreover have "((b' * nra + r') * wpr + cw') mod wpr = cw'" using assms(4) by simp
  ultimately have c: "cw = cw'" using e by simp
  have "(b * nra + r) div nra = b" using assms(1) by simp
  moreover have "(b' * nra + r') div nra = b'" using assms(3) by simp
  ultimately have bb: "b = b'" using q by simp
  then have "r = r'" using q by simp
  with bb c show ?thesis by simp
qed

lemma col_word: "64 dvd nca \<Longrightarrow> c < nca \<Longrightarrow> c div 64 < nca div (64::nat)"
  by (auto simp: dvd_def)

lemma wordIndex_plain:
  assumes "wellFormed m" "(b, r, c) \<in> allocated m"
  shows "wordIndex m b r c
           = b * (nrows_a m * (ncols_a m div 64)) + r * (ncols_a m div 64) + c div 64"
    and "wordIndex m b r c < length (data m)"
proof -
  let ?wpr = "ncols_a m div 64"
  let ?i = "b * (nrows_a m * ?wpr) + r * ?wpr + c div 64"
  from assms have b: "b < nbits m" and r: "r < nrows_a m" and c: "c < ncols_a m"
    by (simp_all add: allocated_def)
  have cw: "c div 64 < ?wpr" using assms(1) c by (simp add: col_word wellFormed_def)
  have lt: "?i < length (data m)"
    using index_in_buffer [OF b r cw] assms(1) by (simp add: wellFormed_def)
  have small: "?i < 2 ^ 64" using lt assms(1) by (simp add: wellFormed_def)
  have wpb: "wordsPerBitplane m = nrows_a m * ?wpr"
    using wellFormed_plane [OF assms(1)] by (simp add: wordsPerBitplane_def wordsPerRow_def mul64_def)
  have 1: "b * (nrows_a m * ?wpr) < 2 ^ 64" using small by simp
  have 2: "r * ?wpr < 2 ^ 64" using small by simp
  have 3: "b * (nrows_a m * ?wpr) + r * ?wpr < 2 ^ 64" using small by simp
  show i: "wordIndex m b r c = ?i"
    using 1 2 3 small by (simp add: wordIndex_def wpb wordsPerRow_def mul64_def add64_def)
  show "wordIndex m b r c < length (data m)" using i lt by simp
qed

lemma get_bitAt:
  assumes "wellFormed m" "(b, r, c) \<in> allocated m"
  shows "get m b r c = Inr (bitAt m b r c)"
proof -
  have "(drop_bit n w AND 1 = 1) = bit w n" for w :: "64 word" and n
    by (simp add: bit_iff_odd_drop_bit and_one_eq mod_2_eq_odd)
  then show ?thesis
    using wordIndex_plain [OF assms]
    by (simp add: get_def readAt_def bitAt_def bitpos_def)
qed

lemma set_bit_at_bitsSet:
  assumes "wellFormed m" "(b, r, c) \<in> allocated m"
  shows "\<exists>m'. set_bit_at m b r c = Inr m' \<and> sameShape m m'
           \<and> bitsSet m' = insert (b, r, c) (bitsSet m)"
proof -
  let ?wpr = "ncols_a m div 64"
  let ?ix = "\<lambda>b r c. b * (nrows_a m * ?wpr) + r * ?wpr + c div 64"
  let ?i = "?ix b r c"
  let ?d = "(data m)[?i := data m ! ?i OR push_bit (c mod 64) 1]"
  let ?m' = "m\<lparr>data := ?d\<rparr>"
  note wi = wordIndex_plain [OF assms]
  have run: "set_bit_at m b r c = Inr ?m'"
    using wi by (simp add: set_bit_at_def readAt_def writeAt_def bitpos_def Let_def)
  have shape: "sameShape m ?m'" by (simp add: sameShape_def)
  have al: "allocated ?m' = allocated m" by (simp add: allocated_def)
  have bits: "bitAt ?m' b' r' c' \<longleftrightarrow> bitAt m b' r' c' \<or> (b', r', c') = (b, r, c)"
    if a: "(b', r', c') \<in> allocated m" for b' r' c'
  proof -
    note wi' = wordIndex_plain [OF assms(1) a]
    have lt: "?ix b' r' c' < length (data m)" using wi' by simp
    have lti: "?i < length (data m)" using wi by simp
    show ?thesis
    proof (cases "?ix b' r' c' = ?i")
      case True
      have cw: "c div 64 < ?wpr" "c' div 64 < ?wpr"
        using assms a by (simp_all add: col_word wellFormed_def allocated_def)
      have rr: "r < nrows_a m" "r' < nrows_a m" using assms(2) a by (simp_all add: allocated_def)
      from index_injective [OF rr(2) cw(2) rr(1) cw(1) True]
      have eq: "b' = b" "r' = r" "c' div 64 = c div 64" by simp_all
      have "c' = c \<longleftrightarrow> c' mod 64 = c mod 64"
        using eq(3) by (metis div_mult_mod_eq)
      then show ?thesis using True lti eq
        by (auto simp: bitAt_def bit_simps)
    next
      case False
      then have ne: "\<not> (b' = b \<and> r' = r \<and> c' = c)" by auto
      have "bitAt ?m' b' r' c' = bitAt m b' r' c'" using False lt by (simp add: bitAt_def)
      then show ?thesis using ne by blast
    qed
  qed
  have "bitsSet ?m' = insert (b, r, c) (bitsSet m)"
    unfolding bitsSet_def al using bits assms(2) by auto
  with run shape show ?thesis by blast
qed

lemma forM_upt_invariant:
  assumes "forM [0..<n] body s = Inr s'" "I 0 s"
    and "\<And>i t t'. i < n \<Longrightarrow> I i t \<Longrightarrow> body i t = Inr t' \<Longrightarrow> I (Suc i) t'"
  shows "I n s'"
  using assms(1,3)
proof (induction n arbitrary: s')
  case 0
  then show ?case using assms(2) by simp
next
  case (Suc n)
  from Suc.prems(1) obtain mid where
    mid: "forM [0..<n] body s = Inr mid" and last: "body n mid = Inr s'"
    by (auto simp: forM_append andThen_eq_Inr)
  have "I n mid" using Suc.IH [OF mid] Suc.prems(2) by simp
  then show ?case using Suc.prems(2) [of n mid s'] last by simp
qed

lemma forM_upt_total:
  assumes "I 0 s"
    and "\<And>i t. i < n \<Longrightarrow> I i t \<Longrightarrow> \<exists>t'. body i t = Inr t' \<and> I (Suc i) t'"
  shows "\<exists>s'. forM [0..<n] body s = Inr s' \<and> I n s'"
  using assms(2)
proof (induction n)
  case 0
  then show ?case using assms(1) by simp
next
  case (Suc n)
  from Suc.IH Suc.prems obtain mid where
    mid: "forM [0..<n] body s = Inr mid" "I n mid" by fastforce
  from Suc.prems [of n mid] mid(2) obtain t' where "body n mid = Inr t'" "I (Suc n) t'"
    by auto
  then show ?case using mid(1) by (simp add: forM_append)
qed

lemma clearAll_empty:
  assumes "wellFormed m"
  shows "\<exists>m'. clearAll m = Inr m' \<and> sameShape m m' \<and> bitsSet m' = {}"
proof -
  let ?n = "length (data m)"
  have wpb: "wordsPerBitplane m = nrows_a m * (ncols_a m div 64)"
    using wellFormed_plane [OF assms] by (simp add: wordsPerBitplane_def wordsPerRow_def mul64_def)
  have len: "nbits m * (nrows_a m * (ncols_a m div 64)) = ?n"
    using assms by (simp add: wellFormed_def)
  have "?n * 8 < 2 ^ 64" using assms by (simp add: wellFormed_def)
  then have n: "mul64 (mul64 (nbits m) (wordsPerBitplane m)) 8 div 8 = ?n"
    by (simp add: wpb len mul64_def)
  let ?m' = "m\<lparr>data := replicate ?n 0\<rparr>"
  have run: "clearAll m = Inr ?m'" by (simp add: clearAll_def n)
  have shape: "sameShape m ?m'" by (simp add: sameShape_def)
  have "bitsSet ?m' = {}"
  proof -
    have "\<not> bitAt ?m' b r c" if "(b, r, c) \<in> allocated ?m'" for b r c
    proof -
      have wf: "wellFormed ?m'" using sameShape_wellFormed [OF shape assms] .
      from wordIndex_plain [OF wf that] show ?thesis by (simp add: bitAt_def)
    qed
    then show ?thesis by (auto simp: bitsSet_def)
  qed
  with run shape show ?thesis by blast
qed

text \<open>What the mask test of the importers sees of a byte.\<close>

lemma byte_high_bits:
  fixes u :: int
  assumes "0 \<le> u" "u < 256"
  shows "8 \<le> b \<Longrightarrow> \<not> bit u b"
proof -
  have "take_bit 8 u = u" using assms by (simp add: take_bit_int_eq_self)
  then have "bit u b = bit (take_bit 8 u) b" by simp
  then show "8 \<le> b \<Longrightarrow> \<not> bit u b" by (simp add: bit_take_bit_iff)
qed

lemma mask_test:
  fixes u :: int
  assumes "0 \<le> u" "u < 256" "shl_int b = Inr w"
  shows "u AND w \<noteq> 0 \<longleftrightarrow> bit u b"
proof (cases "b < 31")
  case True
  then have "w = push_bit b 1" using assms(3) by (simp add: shl_int_def)
  then show ?thesis by (simp add: bit_iff_and_push_bit_not_eq_0)
next
  case False
  then have b: "b = 31" and w0: "w = - (2 ^ 31)"
    using assms(3) by (auto simp: shl_int_def split: if_splits)
  have w: "w = NOT (mask 31)" unfolding w0 by (rule minus_exp_eq_not_mask)
  have "u AND NOT (mask 31) = 0"
  proof (rule bit_eqI)
    fix n
    have "bit u n \<Longrightarrow> n < 31" using byte_high_bits [OF assms(1,2), of n] by (cases "8 \<le> n") auto
    then show "bit (u AND NOT (mask 31)) n = bit (0::int) n" by (auto simp: bit_simps)
  qed
  then show ?thesis using w b byte_high_bits [OF assms(1,2), of 31] by simp
qed

lemma storeBits_step:
  assumes wf: "wellFormed m" and rc: "r < nrows_a m" "c < ncols_a m"
    and u: "0 \<le> u" "u < 256" and i: "i < nbits m"
    and inv: "sameShape m t \<and> bitsSet t = bitsSet m \<union> cellBits u r c i"
    and w: "shl_int i = Inr w"
  shows "\<exists>t'. (if u AND w \<noteq> 0 then set_bit_at t i r c else Inr t) = Inr t'
          \<and> sameShape m t' \<and> bitsSet t' = bitsSet m \<union> cellBits u r c (Suc i)"
proof (cases "bit u i")
  case True
  have wft: "wellFormed t" using inv wf sameShape_wellFormed by blast
  have "(i, r, c) \<in> allocated t" using inv rc i by (simp add: allocated_def sameShape_def)
  from set_bit_at_bitsSet [OF wft this] obtain t' where
    t': "set_bit_at t i r c = Inr t'" "sameShape t t'" "bitsSet t' = insert (i, r, c) (bitsSet t)"
    by blast
  have "cellBits u r c (Suc i) = insert (i, r, c) (cellBits u r c i)"
    using True by (auto simp: cellBits_def less_Suc_eq)
  then have "bitsSet t' = bitsSet m \<union> cellBits u r c (Suc i)" using t'(3) inv by auto
  then show ?thesis using True t' inv mask_test [OF u w] sameShape_trans by auto
next
  case False
  have "cellBits u r c (Suc i) = cellBits u r c i"
    using False by (auto simp: cellBits_def less_Suc_eq)
  then show ?thesis using False inv mask_test [OF u w] by simp
qed

lemma storeBits_bitsSet:
  assumes "wellFormed m" "r < nrows_a m" "c < ncols_a m" "0 \<le> u" "u < 256"
    and "storeBits u r c m = Inr m'"
  shows "sameShape m m' \<and> bitsSet m' = bitsSet m \<union> cellBits u r c (nbits m)"
proof -
  let ?I = "\<lambda>k t. sameShape m t \<and> bitsSet t = bitsSet m \<union> cellBits u r c k"
  have 0: "?I 0 m" by (auto simp: cellBits_def)
  show ?thesis
  proof (rule forM_upt_invariant [where I = ?I and s = m, OF assms(6) [unfolded storeBits_def] 0])
    fix i t t'
    assume i: "i < nbits m" and inv: "?I i t"
      and run: "andThen (shl_int i) (\<lambda>mask. if u AND mask \<noteq> 0 then set_bit_at t i r c else Inr t) = Inr t'"
    from run obtain w where w: "shl_int i = Inr w"
      and r2: "(if u AND w \<noteq> 0 then set_bit_at t i r c else Inr t) = Inr t'"
      by (auto simp: andThen_eq_Inr)
    from storeBits_step [OF assms(1-5) i inv w] r2 show "?I (Suc i) t'" by auto
  qed
qed

lemma storeBits_total:
  assumes "wellFormed m" "r < nrows_a m" "c < ncols_a m" "0 \<le> u" "u < 256" "nbits m \<le> 32"
  shows "\<exists>m'. storeBits u r c m = Inr m'"
proof -
  let ?I = "\<lambda>k t. sameShape m t \<and> bitsSet t = bitsSet m \<union> cellBits u r c k"
  have 0: "?I 0 m" by (auto simp: cellBits_def)
  have "\<exists>s'. forM [0..<nbits m] (\<lambda>b m'. andThen (shl_int b)
          (\<lambda>mask. if u AND mask \<noteq> 0 then set_bit_at m' b r c else Inr m')) m = Inr s'
        \<and> ?I (nbits m) s'"
  proof (rule forM_upt_total [where I = ?I, OF 0])
    fix i t assume i: "i < nbits m" and inv: "?I i t"
    then have "i < 32" using assms(6) by simp
    then have "\<exists>w. shl_int i = Inr w" by (simp add: shl_int_def)
    then obtain w where w: "shl_int i = Inr w" by blast
    from storeBits_step [OF assms(1-5) i inv w] w
    show "\<exists>t'. andThen (shl_int i) (\<lambda>mask. if u AND mask \<noteq> 0 then set_bit_at t i r c else Inr t) = Inr t'
        \<and> ?I (Suc i) t'" by simp
  qed
  then show ?thesis by (auto simp: storeBits_def)
qed

lemma doneBits_cell:
  "doneBits m val k (Suc j) = doneBits m val k j \<union> cellBits (val k j) k j (nbits m)"
  by (auto simp: doneBits_def cellBits_def less_Suc_eq)

lemma doneBits_row: "doneBits m val k (ncols m) = doneBits m val (Suc k) 0"
  by (auto simp: doneBits_def less_Suc_eq)

lemma doneBits_start: "doneBits m val 0 0 = {}"
  by (auto simp: doneBits_def)

lemma doneBits_all: "doneBits m val (nrows m) 0 = logicalBits m val"
  by (auto simp: doneBits_def logicalBits_def)

lemma row_invariant:
  assumes run: "forM [0..<ncols m] (\<lambda>c. cell r c) s = Inr s'"
    and r: "r < nrows m"
    and inv: "sameShape m s \<and> bitsSet s = B \<union> doneBits m val r 0"
    and cell: "\<And>c t t'. c < ncols m \<Longrightarrow> sameShape m t \<Longrightarrow> cell r c t = Inr t'
        \<Longrightarrow> sameShape m t' \<and> bitsSet t' = bitsSet t \<union> cellBits (val r c) r c (nbits m)"
  shows "sameShape m s' \<and> bitsSet s' = B \<union> doneBits m val (Suc r) 0"
proof -
  let ?J = "\<lambda>j t. sameShape m t \<and> bitsSet t = B \<union> doneBits m val r j"
  have "?J (ncols m) s'"
  proof (rule forM_upt_invariant [where I = ?J, OF run inv])
    fix j t t' assume j: "j < ncols m" and J: "?J j t" and step: "cell r j t = Inr t'"
    from cell [OF j _ step] J
    show "?J (Suc j) t'" by (auto simp: doneBits_cell)
  qed
  then show ?thesis by (simp add: doneBits_row)
qed

lemma cells_invariant:
  assumes run: "forM [0..<nrows m] (\<lambda>r. forM [0..<ncols m] (\<lambda>c. cell r c)) m0 = Inr m'"
    and shape0: "sameShape m m0"
    and cell: "\<And>r c t t'. r < nrows m \<Longrightarrow> c < ncols m \<Longrightarrow> sameShape m t \<Longrightarrow> cell r c t = Inr t'
        \<Longrightarrow> sameShape m t' \<and> bitsSet t' = bitsSet t \<union> cellBits (val r c) r c (nbits m)"
  shows "sameShape m m' \<and> bitsSet m' = bitsSet m0 \<union> logicalBits m val"
proof -
  let ?I = "\<lambda>k t. sameShape m t \<and> bitsSet t = bitsSet m0 \<union> doneBits m val k 0"
  have 0: "?I 0 m0" using shape0 by (simp add: doneBits_start)
  have "?I (nrows m) m'"
  proof (rule forM_upt_invariant [where I = ?I, OF run 0])
    fix k t t' assume k: "k < nrows m" and I: "?I k t"
      and step: "forM [0..<ncols m] (\<lambda>c. cell k c) t = Inr t'"
    show "?I (Suc k) t'"
      by (rule row_invariant [where cell = cell and val = val and B = "bitsSet m0", OF step k I])
         (rule cell [OF k])
  qed
  then show ?thesis by (simp add: doneBits_all)
qed

lemma cells_total:
  assumes shape0: "sameShape m m0"
    and cell: "\<And>r c t. r < nrows m \<Longrightarrow> c < ncols m \<Longrightarrow> sameShape m t
        \<Longrightarrow> \<exists>t'. cell r c t = Inr t' \<and> sameShape m t'"
  shows "\<exists>m'. forM [0..<nrows m] (\<lambda>r. forM [0..<ncols m] (\<lambda>c. cell r c)) m0 = Inr m'"
proof -
  let ?I = "\<lambda>(k::nat) t. sameShape m t"
  have "\<exists>s'. forM [0..<nrows m] (\<lambda>r. forM [0..<ncols m] (\<lambda>c. cell r c)) m0 = Inr s' \<and> ?I (nrows m) s'"
  proof (rule forM_upt_total [where I = ?I, OF shape0])
    fix k t assume k: "k < nrows m" and t: "sameShape m t"
    show "\<exists>t'. forM [0..<ncols m] (\<lambda>c. cell k c) t = Inr t' \<and> sameShape m t'"
      by (rule forM_upt_total [where I = ?I, OF t]) (rule cell [OF k])
  qed
  then show ?thesis by blast
qed

lemma sub64_minus:
  assumes "b \<le> a" "a < 2 ^ 64"
  shows "sub64 a b = a - b"
proof -
  have b: "b mod 2 ^ 64 = b" using assms by simp
  have "a + 2 ^ 64 - b = (a - b) + 2 ^ 64" using assms by simp
  then have "(a + 2 ^ 64 - b) mod 2 ^ 64 = (a - b) mod 2 ^ 64"
    by (simp only: mod_add_self2)
  also have "\<dots> = a - b" using assms by (intro mod_less) simp
  finally show ?thesis unfolding sub64_def b .
qed

lemma cell_index:
  fixes r c nr nc :: nat
  assumes "r < nr" "c < nc"
  shows "r * nc + c < nr * nc"
proof -
  have "r * nc + c < Suc r * nc" using assms(2) by simp
  also have "\<dots> \<le> nr * nc" using assms(1) by (intro mult_le_mono1) simp
  finally show ?thesis .
qed

lemma wellFormed_cells:
  assumes "wellFormed m"
  shows "nrows m * ncols m < 2 ^ 64"
proof -
  have "nrows m * ncols m \<le> nrows_a m * ncols_a m"
    using assms by (intro mult_le_mono) (simp_all add: wellFormed_def)
  moreover have "nrows_a m * ncols_a m < 2 ^ 64" using assms by (simp add: wellFormed_def)
  ultimately show ?thesis by (rule le_less_trans)
qed

lemma readElem_index:
  assumes "wellFormed m" "sameShape m t" "r < nrows m" "c < ncols m"
  shows "readElem t matrix readColMajor r c
           = readAt matrix (if readColMajor then c * nrows m + r else r * ncols m + c)"
    and "(if readColMajor then c * nrows m + r else r * ncols m + c) < nrows m * ncols m"
proof -
  have small: "nrows m * ncols m < 2 ^ 64" by (rule wellFormed_cells [OF assms(1)])
  have rm: "r * ncols m + c < nrows m * ncols m" by (rule cell_index [OF assms(3,4)])
  have cm: "c * nrows m + r < nrows m * ncols m"
    using cell_index [OF assms(4,3)] by (simp add: mult.commute)
  have f: "nrows t = nrows m" "ncols t = ncols m" using assms(2) by (simp_all add: sameShape_def)
  have 1: "r * ncols m < 2 ^ 64" "c * nrows m < 2 ^ 64" using rm cm small by simp_all
  have 2: "r * ncols m + c < 2 ^ 64" "c * nrows m + r < 2 ^ 64" using rm cm small by simp_all
  show "readElem t matrix readColMajor r c
           = readAt matrix (if readColMajor then c * nrows m + r else r * ncols m + c)"
    using 1 2 by (simp add: readElem_def f mul64_def add64_def)
  show "(if readColMajor then c * nrows m + r else r * ncols m + c) < nrows m * ncols m"
    using rm cm by simp
qed

lemma readElem_logical:
  assumes "wellFormed m" "sameShape m t" "r < nrows m" "c < ncols m"
    and "readElem t matrix readColMajor r c = Inr v"
  shows "v = logical matrix readColMajor (nrows m) (ncols m) r c"
  using assms(5) readElem_index(1) [OF assms(1-4), where matrix = matrix and readColMajor = readColMajor]
  by (auto simp: readAt_def logical_def split: if_splits)

lemma readElem_total:
  assumes "wellFormed m" "sameShape m t" "r < nrows m" "c < ncols m"
    and "nrows m * ncols m \<le> length matrix"
  shows "readElem t matrix readColMajor r c
           = Inr (logical matrix readColMajor (nrows m) (ncols m) r c)"
  using readElem_index(1) [OF assms(1-4), where matrix = matrix and readColMajor = readColMajor]
    readElem_index(2) [OF assms(1-4), where readColMajor = readColMajor] assms(5)
  by (auto simp: readAt_def logical_def split: if_splits)

lemma sameShape_fields:
  assumes "sameShape m t"
  shows "isBipolar t = isBipolar m" "toUint8 t v = toUint8 m v" "encode t v = encode m v"
  using assms by (simp_all add: sameShape_def isBipolar_def toUint8_def encode_def)

lemma encode_byte: "0 \<le> encode m v \<and> encode m v < 256"
  by (simp add: encode_def)

lemma toUint8_encode:
  assumes "nbits m < 2 ^ 64" "\<not> isBipolar m" "toUint8 m v = Inr u"
  shows "u = encode m v"
proof (cases "issigned m \<and> v < 0")
  case False
  then show ?thesis using assms by (auto simp: toUint8_def encode_def)
next
  case True
  from assms(3) True obtain s t where
    s: "shl_int (sub64 (nbits m) 1) = Inr s" and t: "add32 v s = Inr t"
    and u: "u = ((0 + s mod 256) mod 256 + t mod 256) mod 256"
    by (auto simp: toUint8_def andThen_eq_Inr)
  have pos: "0 < nbits m"
  proof (rule ccontr)
    assume "\<not> 0 < nbits m"
    then have "sub64 (nbits m) 1 = 2 ^ 64 - 1" by (simp add: sub64_def)
    then show False using s by (simp add: shl_int_def)
  qed
  then have sub: "sub64 (nbits m) 1 = nbits m - 1" using assms(1) by (simp add: sub64_minus)
  have "s \<noteq> - (2 ^ 31)"
  proof
    assume "s = - (2 ^ 31)"
    then show False using t True by (simp add: add32_def)
  qed
  then have sv: "s = 2 ^ (nbits m - 1)"
    using s sub by (auto simp: shl_int_def split: if_splits)
  have tv: "t = v + s" using t by (auto simp: add32_def split: if_splits)
  have two: "s + (v + s) = v + 2 ^ nbits m" using sv pos by (simp add: power_eq_if)
  have "u = (s mod 256 + (v + s) mod 256) mod 256" unfolding u tv by simp
  also have "\<dots> = (s + (v + s)) mod 256" by (simp only: mod_add_eq)
  finally have "u = (v + 2 ^ nbits m) mod 256" unfolding two .
  then show ?thesis using True assms(2) by (simp add: encode_def)
qed

lemma toUint8_total:
  assumes "nbits m < 2 ^ 64" "issigned m \<longrightarrow> 0 < nbits m \<and> nbits m \<le> 31" "- (2 ^ 31) \<le> v"
  shows "\<exists>u. toUint8 m v = Inr u"
proof (cases "issigned m \<and> v < 0")
  case False
  then show ?thesis by (auto simp: toUint8_def)
next
  case True
  then have n: "0 < nbits m" "nbits m \<le> 31" using assms(2) by simp_all
  then have sub: "sub64 (nbits m) 1 = nbits m - 1" using assms(1) by (simp add: sub64_minus)
  have s: "shl_int (nbits m - 1) = Inr (2 ^ (nbits m - 1))" using n by (simp add: shl_int_def)
  have "\<exists>t. add32 v p = Inr t" if "0 < p" "p \<le> 2 ^ 30" for p :: int
    using that True assms(3) by (simp add: add32_def)
  moreover have "(2::int) ^ (nbits m - 1) \<le> 2 ^ 30" using n by (intro power_increasing) simp_all
  ultimately have "\<exists>t. add32 v (2 ^ (nbits m - 1)) = Inr t" by simp
  then show ?thesis using True sub s by (auto simp: toUint8_def)
qed

lemma cellBits_one: "cellBits 1 r c (Suc 0) = {(0, r, c)}" "cellBits 0 r c k = {}"
  by (auto simp: cellBits_def)

lemma importElem_cell:
  assumes wf: "wellFormed m" and sh: "sameShape m t" and rc: "r < nrows m" "c < ncols m"
    and run: "importElem matrix readColMajor r c t = Inr t'"
  shows "sameShape m t' \<and>
         bitsSet t' = bitsSet t \<union>
           cellBits (encode m (logical matrix readColMajor (nrows m) (ncols m) r c)) r c (nbits m)"
proof -
  let ?v = "logical matrix readColMajor (nrows m) (ncols m) r c"
  have wft: "wellFormed t" by (rule sameShape_wellFormed [OF sh wf])
  have rca: "r < nrows_a t" "c < ncols_a t" "nbits t = nbits m"
    using wf sh rc by (simp_all add: wellFormed_def sameShape_def)
  from run obtain v where v: "readElem t matrix readColMajor r c = Inr v"
    and rest: "(if isBipolar t then (if v > 0 then set_bit_at t 0 r c else Inr t)
               else andThen (toUint8 t v) (\<lambda>u. storeBits u r c t)) = Inr t'"
    by (auto simp: importElem_def andThen_eq_Inr)
  have vv: "v = ?v" by (rule readElem_logical [OF wf sh rc v])
  show ?thesis
  proof (cases "isBipolar m")
    case True
    then have n1: "nbits m = 1" by (simp add: isBipolar_def)
    show ?thesis
    proof (cases "v > 0")
      case pos: True
      have "(0, r, c) \<in> allocated t" using rca n1 by (simp add: allocated_def)
      from set_bit_at_bitsSet [OF wft this] rest True pos sameShape_fields(1) [OF sh]
      have "sameShape t t'" "bitsSet t' = insert (0, r, c) (bitsSet t)" by auto
      then show ?thesis using sh pos True vv n1 sameShape_trans
        by (auto simp: encode_def cellBits_one)
    next
      case False
      then show ?thesis using rest True sh vv sameShape_fields(1) [OF sh]
        by (auto simp: encode_def cellBits_one)
    qed
  next
    case False
    from rest False sameShape_fields [OF sh] obtain u where
      u: "toUint8 m v = Inr u" and st: "storeBits u r c t = Inr t'"
      by (auto simp: andThen_eq_Inr)
    have nb: "nbits m < 2 ^ 64" using wf by (simp add: wellFormed_def)
    have ue: "u = encode m v" by (rule toUint8_encode [OF nb False u])
    have ub: "0 \<le> u" "u < 256" using ue encode_byte by simp_all
    from storeBits_bitsSet [OF wft rca(1,2) ub st]
    show ?thesis using sh ue vv rca(3) sameShape_trans by auto
  qed
qed

lemma importRegular_bitsSet:
  assumes "wellFormed m" "importRegular m matrix readColMajor = Inr m'"
  shows "sameShape m m' \<and> bitsSet m' = logicalBits m (stored m matrix readColMajor)"
proof -
  from clearAll_empty [OF assms(1)] obtain m0 where
    m0: "clearAll m = Inr m0" "sameShape m m0" "bitsSet m0 = {}" by blast
  have f: "nrows m0 = nrows m" "ncols m0 = ncols m" using m0(2) by (simp_all add: sameShape_def)
  have run: "forM [0..<nrows m] (\<lambda>r. forM [0..<ncols m]
               (\<lambda>c. importElem matrix readColMajor r c)) m0 = Inr m'"
    using assms(2) m0(1) by (simp add: importRegular_def f)
  have "sameShape m m' \<and> bitsSet m' = bitsSet m0 \<union> logicalBits m (stored m matrix readColMajor)"
    by (rule cells_invariant [where cell = "importElem matrix readColMajor", OF run m0(2)])
       (simp add: stored_def importElem_cell [OF assms(1)])
  then show ?thesis using m0(3) by simp
qed

lemma get_bitsSet:
  assumes "wellFormed m" "b < nbits m" "r < nrows_a m" "c < ncols_a m"
  shows "get m b r c = Inr ((b, r, c) \<in> bitsSet m)"
proof -
  have a: "(b, r, c) \<in> allocated m" using assms by (simp add: allocated_def)
  show ?thesis using get_bitAt [OF assms(1) a] a by (simp add: bitsSet_def)
qed

lemma logical_in_set:
  assumes "r < nr" "c < nc" "nr * nc \<le> length matrix"
  shows "logical matrix readColMajor nr nc r c \<in> set matrix"
proof -
  have "r * nc + c < nr * nc" by (rule cell_index [OF assms(1,2)])
  moreover have "c * nr + r < nr * nc" using cell_index [OF assms(2,1)] by (simp add: mult.commute)
  ultimately show ?thesis using assms(3) by (simp add: logical_def)
qed

lemma importElem_total:
  assumes wf: "wellFormed m" and sh: "sameShape m t" and rc: "r < nrows m" "c < ncols m"
    and imp: "importable m matrix"
  shows "\<exists>t'. importElem matrix readColMajor r c t = Inr t' \<and> sameShape m t'"
proof -
  let ?v = "logical matrix readColMajor (nrows m) (ncols m) r c"
  have wft: "wellFormed t" by (rule sameShape_wellFormed [OF sh wf])
  have rca: "r < nrows_a t" "c < ncols_a t" "nbits t = nbits m"
    using wf sh rc by (simp_all add: wellFormed_def sameShape_def)
  have len: "nrows m * ncols m \<le> length matrix" using imp by (simp add: importable_def)
  have v: "readElem t matrix readColMajor r c = Inr ?v"
    by (rule readElem_total [OF wf sh rc len])
  have "?v \<in> set matrix" by (rule logical_in_set [OF rc len])
  then have vlo: "- (2 ^ 31) \<le> ?v" using imp by (simp add: importable_def)
  have "\<exists>t'. importElem matrix readColMajor r c t = Inr t'"
  proof (cases "isBipolar m")
    case True
    then have "(0, r, c) \<in> allocated t" using rca by (simp add: allocated_def isBipolar_def)
    from set_bit_at_bitsSet [OF wft this] show ?thesis
      using v True sameShape_fields(1) [OF sh] by (auto simp: importElem_def)
  next
    case False
    have nb: "nbits m < 2 ^ 64" using wf by (simp add: wellFormed_def)
    have sg: "issigned m \<longrightarrow> 0 < nbits m \<and> nbits m \<le> 31" using imp by (simp add: importable_def)
    from toUint8_total [OF nb sg vlo] obtain u where u: "toUint8 m ?v = Inr u" by blast
    have "u = encode m ?v" by (rule toUint8_encode [OF nb False u])
    then have ub: "0 \<le> u" "u < 256" using encode_byte by simp_all
    have "nbits t \<le> 32" using imp rca(3) by (simp add: importable_def)
    from storeBits_total [OF wft rca(1,2) ub this] show ?thesis
      using v False u sameShape_fields(1,2) [OF sh] by (auto simp: importElem_def)
  qed
  then obtain t' where t': "importElem matrix readColMajor r c t = Inr t'" by blast
  from importElem_cell [OF wf sh rc t'] t' show ?thesis by blast
qed

lemma importRegular_total:
  assumes "wellFormed m" "importable m matrix"
  shows "\<exists>m'. importRegular m matrix readColMajor = Inr m'"
proof -
  from clearAll_empty [OF assms(1)] obtain m0 where
    m0: "clearAll m = Inr m0" "sameShape m m0" by blast
  have f: "nrows m0 = nrows m" "ncols m0 = ncols m" using m0(2) by (simp_all add: sameShape_def)
  have "\<exists>m'. forM [0..<nrows m] (\<lambda>r. forM [0..<ncols m]
               (\<lambda>c. importElem matrix readColMajor r c)) m0 = Inr m'"
    by (rule cells_total [OF m0(2)]) (rule importElem_total [OF assms(1) _ _ _ assms(2)])
  then show ?thesis using m0(1) by (simp add: importRegular_def f)
qed

lemma logicalBits_padding:
  assumes "wellFormed m" "sameShape m m'" "bitsSet m' = logicalBits m val"
  shows "paddingZero m'"
  unfolding paddingZero_def
proof (intro allI impI)
  fix b r c
  assume a: "b < nbits m' \<and> r < nrows_a m' \<and> c < ncols_a m' \<and> (nrows m' \<le> r \<or> ncols m' \<le> c)"
  have wf': "wellFormed m'" by (rule sameShape_wellFormed [OF assms(2,1)])
  have "(b, r, c) \<notin> logicalBits m val" using a assms(2) by (auto simp: logicalBits_def sameShape_def)
  then show "get m' b r c = Inr False"
    using get_bitsSet [OF wf', of b r c] a assms(3) by simp
qed

lemma threshold_read:
  assumes "k < n" "r < nr" "n * nr \<le> length thresholds" "length thresholds < 2 ^ 64"
  shows "readAt thresholds (add64 (mul64 k nr) r) = Inr (thresholds ! (k * nr + r))"
proof -
  have "k * nr + r < n * nr" by (rule cell_index [OF assms(1,2)])
  then have lt: "k * nr + r < length thresholds" using assms(3) by simp
  then have "k * nr + r < 2 ^ 64" "k * nr < 2 ^ 64" using assms(4) by simp_all
  then show ?thesis using lt by (simp add: readAt_def add64_def mul64_def)
qed

lemma quantize_from:
  assumes "r < nr" "nat n * nr \<le> length thresholds" "length thresholds < 2 ^ 64"
  shows "0 \<le> t \<Longrightarrow> t < n \<Longrightarrow>
     quantize thresholds nr r n v t
       = Inr (t + int (length (takeWhile (\<lambda>k. thresholds ! (k * nr + r) < v) [nat t..<nat n])))"
proof (induction "nat (n - t)" arbitrary: t)
  case 0
  then show ?case by simp
next
  case (Suc d)
  let ?P = "\<lambda>k. thresholds ! (k * nr + r) < v"
  have tn: "nat t < nat n" using Suc.prems by simp
  have rd: "readAt thresholds (add64 (mul64 (nat t) nr) r) = Inr (thresholds ! (nat t * nr + r))"
    by (rule threshold_read [OF tn assms])
  have suc: "Suc (nat t) = nat (t + 1)" using Suc.prems(1) by simp
  have up: "[nat t..<nat n] = nat t # [nat (t + 1)..<nat n]"
    using upt_conv_Cons [OF tn] unfolding suc .
  have step: "quantize thresholds nr r n v t =
      (if v \<le> thresholds ! (nat t * nr + r) then Inr t
       else if t = n - 1 then quantize thresholds nr r n (t + 1) (t + 1)
       else quantize thresholds nr r n v (t + 1))"
    using Suc.prems(2) rd by (subst quantize.simps) simp
  show ?case
  proof (cases "v \<le> thresholds ! (nat t * nr + r)")
    case True
    then show ?thesis unfolding step up by simp
  next
    case False
    show ?thesis
    proof (cases "t = n - 1")
      case last: True
      then have e: "[nat (t + 1)..<nat n] = []" by simp
      have "quantize thresholds nr r n (t + 1) (t + 1) = Inr (t + 1)"
        using last by (subst quantize.simps) simp
      then show ?thesis unfolding step up e using False last by simp
    next
      case more: False
      have d: "d = nat (n - (t + 1))" using Suc.hyps(2) by simp
      have "quantize thresholds nr r n v (t + 1)
        = Inr (t + 1 + int (length (takeWhile ?P [nat (t + 1)..<nat n])))"
        using Suc.hyps(1) [OF d] Suc.prems more by simp
      then show ?thesis unfolding step up using False more by simp
    qed
  qed
qed

lemma quantize_level:
  assumes "r < nr" "nat nThres * nr \<le> length thresholds" "length thresholds < 2 ^ 64"
    and "0 < nThres"
  shows "quantize thresholds nr r nThres v 0 = Inr (int (level thresholds nr r (nat nThres) v))"
  using quantize_from [OF assms(1-3), of 0 v] assms(4) by (simp add: level_def)

lemma quantize_none: "nThres \<le> 0 \<Longrightarrow> quantize thresholds nr r nThres v 0 = Inr v"
  by (simp add: quantize.simps)

text \<open>\<open>level\<close> is the least index whose threshold the value does not exceed.\<close>

lemma level_least:
  "level thresholds nr r n v \<le> n"
  "t < level thresholds nr r n v \<Longrightarrow> thresholds ! (t * nr + r) < v"
  "level thresholds nr r n v < n \<Longrightarrow> v \<le> thresholds ! (level thresholds nr r n v * nr + r)"
proof -
  let ?P = "\<lambda>t. thresholds ! (t * nr + r) < v"
  let ?l = "level thresholds nr r n v"
  show le: "?l \<le> n"
    unfolding level_def using length_takeWhile_le [of ?P "[0..<n]"] by simp
  show "thresholds ! (t * nr + r) < v" if "t < ?l"
  proof -
    have "takeWhile ?P [0..<n] ! t = [0..<n] ! t"
      using that by (intro takeWhile_nth) (simp add: level_def)
    moreover have "t < n" using that le by simp
    moreover have "?P (takeWhile ?P [0..<n] ! t)"
      using that nth_mem [of t "takeWhile ?P [0..<n]"] set_takeWhileD [of _ ?P "[0..<n]"]
      by (simp add: level_def)
    ultimately show ?thesis by simp
  qed
  show "v \<le> thresholds ! (?l * nr + r)" if "?l < n"
  proof -
    have "\<not> ?P ([0..<n] ! ?l)"
      using that by (intro nth_length_takeWhile [of ?P "[0..<n]", folded level_def]) simp
    then show ?thesis using that by simp
  qed
qed

lemma quantizeElem_cell:
  assumes wf: "wellFormed m" and sh: "sameShape m t" and rc: "r < nrows m" "c < ncols m"
    and run: "quantizeElem matrix thresholds nThres readColMajor r c t = Inr t'"
  shows "sameShape m t' \<and>
         bitsSet t' = bitsSet t \<union>
           cellBits (qbyte m matrix thresholds nThres readColMajor r c) r c (nbits m)"
proof -
  let ?v = "logical matrix readColMajor (nrows m) (ncols m) r c"
  have wft: "wellFormed t" by (rule sameShape_wellFormed [OF sh wf])
  have rca: "r < nrows_a t" "c < ncols_a t" "nbits t = nbits m" "nrows t = nrows m"
    using wf sh rc by (simp_all add: wellFormed_def sameShape_def)
  from run obtain v q where v: "readElem t matrix readColMajor r c = Inr v"
    and q: "quantize thresholds (nrows t) r nThres v 0 = Inr q"
    and st: "storeBits (q mod 256) r c t = Inr t'"
    by (auto simp: quantizeElem_def andThen_eq_Inr)
  have vv: "v = ?v" by (rule readElem_logical [OF wf sh rc v])
  have qb: "qbyte m matrix thresholds nThres readColMajor r c = q mod 256"
    using q vv rca(4) by (simp add: qbyte_def)
  have ub: "0 \<le> q mod 256" "q mod 256 < 256" by simp_all
  from storeBits_bitsSet [OF wft rca(1,2) ub st]
  show ?thesis using sh qb rca(3) sameShape_trans by auto
qed

lemma importRegularAndQuantize_bitsSet:
  assumes "wellFormed m" "importRegularAndQuantize m matrix thresholds nThres readColMajor = Inr m'"
  shows "\<not> issigned m \<and> sameShape m m'
         \<and> bitsSet m' = logicalBits m (qbyte m matrix thresholds nThres readColMajor)"
proof -
  have us: "\<not> issigned m" using assms(2) by (auto simp: importRegularAndQuantize_def split: if_splits)
  from clearAll_empty [OF assms(1)] obtain m0 where
    m0: "clearAll m = Inr m0" "sameShape m m0" "bitsSet m0 = {}" by blast
  have f: "nrows m0 = nrows m" "ncols m0 = ncols m" using m0(2) by (simp_all add: sameShape_def)
  have run: "forM [0..<nrows m] (\<lambda>r. forM [0..<ncols m]
               (\<lambda>c. quantizeElem matrix thresholds nThres readColMajor r c)) m0 = Inr m'"
    using assms(2) m0(1) us by (simp add: importRegularAndQuantize_def f)
  have "sameShape m m' \<and> bitsSet m' = bitsSet m0
          \<union> logicalBits m (qbyte m matrix thresholds nThres readColMajor)"
    by (rule cells_invariant [where cell = "quantizeElem matrix thresholds nThres readColMajor",
          OF run m0(2)])
       (simp add: quantizeElem_cell [OF assms(1)])
  then show ?thesis using m0(3) us by simp
qed

text \<open>The definitions a run on a concrete matrix unfolds.\<close>

lemmas run_defs =
  importRegular_def importRegularAndQuantize_def clearAll_def importElem_def quantizeElem_def
  readElem_def toUint8_def storeBits_def set_bit_at_def get_def wordIndex_def wordsPerBitplane_def
  wordsPerRow_def bitpos_def isBipolar_def readAt_def writeAt_def shl_int_def add32_def sub32_def
  mul64_def add64_def sub64_def exportRegular_def exportElem_def decodeElem_def

text \<open>
  C10, as amended. On a well-formed matrix (in particular \<open>ncols_a\<close> is a multiple of
  64) of more than 8 and at most 32 bit-planes (31 when signed), \<open>importRegular\<close>
  returns on every source of \<open>int32_t\<close> values that covers the matrix, and then the bit at
  plane \<open>b\<close> of a logical cell is bit \<open>b\<close> of the element reduced modulo 256: only the
  low byte of an element is stored, and the planes 8 to \<open>nbits - 1\<close> are zero everywhere.
  The same holds of every result that \<open>importRegular\<close> returns on a well-formed matrix
  of more than 8 bit-planes.
\<close>

theorem import_low_byte_only:
  assumes "wellFormed m" "8 < nbits m"
  shows "(importable m matrix \<longrightarrow>
           (\<exists>m'. importRegular m matrix readColMajor = Inr m'
              \<and> (\<forall>b r c. b < nbits m \<and> r < nrows_a m \<and> c < ncols_a m
                   \<longrightarrow> get m' b r c
                         = Inr (b < 8 \<and> r < nrows m \<and> c < ncols m
                                \<and> bit (logical matrix readColMajor (nrows m) (ncols m) r c
                                         mod 256) b)
                       \<and> (8 \<le> b \<longrightarrow> get m' b r c = Inr False))))
       \<and> (\<forall>m' b r c. importRegular m matrix readColMajor = Inr m'
              \<and> b < nbits m \<and> r < nrows_a m \<and> c < ncols_a m
            \<longrightarrow> get m' b r c
                  = Inr (b < 8 \<and> r < nrows m \<and> c < ncols m
                         \<and> bit (logical matrix readColMajor (nrows m) (ncols m) r c mod 256) b)
                \<and> (8 \<le> b \<longrightarrow> get m' b r c = Inr False))"
proof -
  have part: "get m' b r c
        = Inr (b < 8 \<and> r < nrows m \<and> c < ncols m
               \<and> bit (logical matrix readColMajor (nrows m) (ncols m) r c mod 256) b)
      \<and> (8 \<le> b \<longrightarrow> get m' b r c = Inr False)"
    if a: "importRegular m matrix readColMajor = Inr m'
              \<and> b < nbits m \<and> r < nrows_a m \<and> c < ncols_a m" for m' b r c
  proof -
    let ?v = "logical matrix readColMajor (nrows m) (ncols m) r c"
    from importRegular_bitsSet [OF assms(1)] a have sh: "sameShape m m'"
      and bs: "bitsSet m' = logicalBits m (stored m matrix readColMajor)" by blast+
    have wf': "wellFormed m'" by (rule sameShape_wellFormed [OF sh assms(1)])
    have "(256::int) dvd 2 ^ nbits m"
      using assms(2) le_imp_power_dvd [of 8 "nbits m" "2::int"] by simp
    then have "(?v + 2 ^ nbits m) mod 256 = ?v mod 256"
      by (simp add: mod_add_right_eq [symmetric] mod_eq_0_iff_dvd)
    then have enc: "stored m matrix readColMajor r c = ?v mod 256"
      using assms(2) by (simp add: stored_def encode_def isBipolar_def)
    have hi: "\<not> bit (?v mod 256) b" if "8 \<le> b"
      using byte_high_bits [of "?v mod 256" b] that by simp
    have g: "get m' b r c = Inr ((b, r, c) \<in> bitsSet m')"
      using get_bitsSet [OF wf', of b r c] a sh by (simp add: sameShape_def)
    have eq: "get m' b r c
            = Inr (b < 8 \<and> r < nrows m \<and> c < ncols m \<and> bit (?v mod 256) b)"
    proof (cases "8 \<le> b")
      case True
      then show ?thesis unfolding g bs using enc hi by (simp add: logicalBits_def)
    next
      case False
      then show ?thesis unfolding g bs using a enc by (simp add: logicalBits_def)
    qed
    then show ?thesis by simp
  qed
  show ?thesis
  proof (intro conjI impI allI)
    assume "importable m matrix"
    from importRegular_total [OF assms(1) this] obtain m' where
      run: "importRegular m matrix readColMajor = Inr m'" by blast
    then show "\<exists>m'. importRegular m matrix readColMajor = Inr m'
              \<and> (\<forall>b r c. b < nbits m \<and> r < nrows_a m \<and> c < ncols_a m
                   \<longrightarrow> get m' b r c
                         = Inr (b < 8 \<and> r < nrows m \<and> c < ncols m
                                \<and> bit (logical matrix readColMajor (nrows m) (ncols m) r c
                                         mod 256) b)
                       \<and> (8 \<le> b \<longrightarrow> get m' b r c = Inr False))"
      using part by blast
  next
    fix m' b r c
    assume a: "importRegular m matrix readColMajor = Inr m'
              \<and> b < nbits m \<and> r < nrows_a m \<and> c < ncols_a m"
    from part [OF a] show "get m' b r c
        = Inr (b < 8 \<and> r < nrows m \<and> c < ncols m
               \<and> bit (logical matrix readColMajor (nrows m) (ncols m) r c mod 256) b)"
      and "8 \<le> b \<Longrightarrow> get m' b r c = Inr False" by simp_all
  qed
qed

theorem import_low_byte_only_witness:
  "\<exists>m'. importRegular \<lparr>issigned = False, nbits = 9, nrows = 1, ncols = 1, nrows_a = 1,
            ncols_a = 64, data = [5, 5, 5, 5, 5, 5, 5, 5, 5]\<rparr> [257] False = Inr m'
      \<and> get m' 0 0 0 = Inr True \<and> get m' 8 0 0 = Inr False"
proof -
  let ?m = "\<lparr>issigned = False, nbits = 9, nrows = 1, ncols = 1, nrows_a = 1,
            ncols_a = 64, data = [5, 5, 5, 5, 5, 5, 5, 5, 5 :: 64 word]\<rparr>"
  have wf: "wellFormed ?m" "8 < nbits ?m" by (simp_all add: wellFormed_def)
  have "importable ?m [257]" by (simp add: importable_def)
  with import_low_byte_only [OF wf, of "[257]" False] obtain m' where
    run: "importRegular ?m [257] False = Inr m'"
    and g: "\<forall>b r c. b < nbits ?m \<and> r < nrows_a ?m \<and> c < ncols_a ?m
       \<longrightarrow> get m' b r c
             = Inr (b < 8 \<and> r < nrows ?m \<and> c < ncols ?m
                    \<and> bit (logical [257] False (nrows ?m) (ncols ?m) r c mod 256) b)
           \<and> (8 \<le> b \<longrightarrow> get m' b r c = Inr False)"
    by blast
  have "get m' 0 0 0 = Inr True" "get m' 8 0 0 = Inr False"
    using g [rule_format, of 0 0 0] g [rule_format, of 8 0 0]
    by (simp_all add: logical_def)
  with run show ?thesis by blast
qed

text \<open>
  C10 as stated fails in two places. When \<open>ncols_a\<close> is not a multiple of 64, which
  \<open>alloc\<close> accepts, the word of a column from 64 on lies outside the row: with one row
  of 65 columns aligned to 96, bit 7 of the element at column 64 lands in the word of
  plane 8, which then reads 1 at cell \<open>(0, 0)\<close>. And beyond 32 bit-planes the loop
  evaluates \<open>1 << 32\<close> on an \<open>int\<close>, which is undefined: on a matrix of 33 planes that
  \<open>alloc\<close> returns, the import of \<open>[[1]]\<close> has no defined result.
\<close>

theorem import_low_byte_only_counterexample:
  "(\<exists>m m'. alloc (Some (\<lambda>i. 5)) 9 1 65 False 1 96 = Inr m
      \<and> importRegular m (replicate 64 0 @ [128]) False = Inr m'
      \<and> get m' 8 0 0 = Inr True)
   \<and> (\<exists>m. alloc (Some (\<lambda>i. 5)) 33 1 1 False 1 64 = Inr m
      \<and> importRegular m [1] False = Inl UndefinedShift)"
proof (intro conjI)
  let ?m = "\<lparr>issigned = False, nbits = 9, nrows = 1, ncols = 65, nrows_a = 1, ncols_a = 96,
             data = replicate 9 (5 :: 64 word)\<rparr>"
  have "map (\<lambda>i. 5 :: 64 word) [0..<9] = replicate 9 5"
    by (simp add: map_replicate_const [of _ "[0..<9]", simplified])
  then have a: "alloc (Some (\<lambda>i. 5)) 9 1 65 False 1 96 = Inr ?m"
    by (simp add: alloc_def newArray_def alignTo_def add64_def mul64_def wordsPerBitplane_def
        wordsPerRow_def Let_def)
  have "\<exists>m'. importRegular ?m (replicate 64 0 @ [128]) False = Inr m'
     \<and> get m' 8 0 0 = Inr True"
    by (simp add: run_defs upt_conv_Cons Let_def nth_append)
  with a show "\<exists>m m'. alloc (Some (\<lambda>i. 5)) 9 1 65 False 1 96 = Inr m
      \<and> importRegular m (replicate 64 0 @ [128]) False = Inr m'
      \<and> get m' 8 0 0 = Inr True" by blast
next
  let ?m = "\<lparr>issigned = False, nbits = 33, nrows = 1, ncols = 1, nrows_a = 1, ncols_a = 64,
             data = replicate 33 (5 :: 64 word)\<rparr>"
  have "map (\<lambda>i. 5 :: 64 word) [0..<33] = replicate 33 5"
    by (simp add: map_replicate_const [of _ "[0..<33]", simplified])
  then have a: "alloc (Some (\<lambda>i. 5)) 33 1 1 False 1 64 = Inr ?m"
    by (simp add: alloc_def newArray_def alignTo_def add64_def mul64_def wordsPerBitplane_def
        wordsPerRow_def Let_def)
  have "importRegular ?m [1] False = Inl UndefinedShift"
    by (simp add: run_defs upt_conv_Cons Let_def)
  with a show "\<exists>m. alloc (Some (\<lambda>i. 5)) 33 1 1 False 1 64 = Inr m
      \<and> importRegular m [1] False = Inl UndefinedShift" by blast
qed

section \<open>Properties of the quantising importer\<close>

lemma firstCrossing_level: "firstCrossing thresholds nr r n v (level thresholds nr r n v)"
  unfolding firstCrossing_def
  using level_least [where thresholds = thresholds and nr = nr and r = r and n = n and v = v]
  by blast

lemma firstCrossing_unique:
  assumes "firstCrossing thresholds nr r n v q" "firstCrossing thresholds nr r n v q'"
  shows "q = q'"
proof (rule ccontr)
  assume ne: "q \<noteq> q'"
  show False
  proof (cases "q < q'")
    case True
    then have "thresholds ! (q * nr + r) < v" "q < n"
      using assms(2) by (auto simp: firstCrossing_def)
    then show False using assms(1) by (auto simp: firstCrossing_def)
  next
    case False
    then have lt: "q' < q" using ne by simp
    then have "thresholds ! (q' * nr + r) < v" "q' < n"
      using assms(1) by (auto simp: firstCrossing_def)
    then show False using assms(2) by (auto simp: firstCrossing_def)
  qed
qed

lemma quantizeElem_total:
  assumes wf: "wellFormed m" and sh: "sameShape m t" and rc: "r < nrows m" "c < ncols m"
    and len: "nrows m * ncols m \<le> length matrix"
    and thr: "nat nThres * nrows m \<le> length thresholds" "length thresholds < 2 ^ 64" "0 < nThres"
    and nb: "nbits m \<le> 32"
  shows "\<exists>t'. quantizeElem matrix thresholds nThres readColMajor r c t = Inr t' \<and> sameShape m t'"
proof -
  let ?v = "logical matrix readColMajor (nrows m) (ncols m) r c"
  have wft: "wellFormed t" by (rule sameShape_wellFormed [OF sh wf])
  have rca: "r < nrows_a t" "c < ncols_a t" "nbits t = nbits m" "nrows t = nrows m"
    using wf sh rc by (simp_all add: wellFormed_def sameShape_def)
  have v: "readElem t matrix readColMajor r c = Inr ?v"
    by (rule readElem_total [OF wf sh rc len])
  have q: "quantize thresholds (nrows m) r nThres ?v 0
             = Inr (int (level thresholds (nrows m) r (nat nThres) ?v))"
    by (rule quantize_level [OF rc(1) thr])
  let ?u = "int (level thresholds (nrows m) r (nat nThres) ?v) mod 256"
  have ub: "0 \<le> ?u" "?u < 256" by simp_all
  have "nbits t \<le> 32" using nb rca(3) by simp
  from storeBits_total [OF wft rca(1,2) ub this] obtain t' where
    "storeBits ?u r c t = Inr t'" by blast
  then have t': "quantizeElem matrix thresholds nThres readColMajor r c t = Inr t'"
    using v q rca(4) by (simp add: quantizeElem_def)
  from quantizeElem_cell [OF wf sh rc t'] t' show ?thesis by blast
qed

lemma importRegularAndQuantize_get:
  assumes wf: "wellFormed m" and us: "\<not> issigned m"
    and len: "nrows m * ncols m \<le> length matrix"
    and thr: "nat nThres * nrows m \<le> length thresholds" "length thresholds < 2 ^ 64" "0 < nThres"
    and nb: "nbits m \<le> 32"
  shows "\<exists>m'. importRegularAndQuantize m matrix thresholds nThres readColMajor = Inr m'
     \<and> (\<forall>r c b. r < nrows m \<and> c < ncols m \<and> b < nbits m \<longrightarrow>
          get m' b r c = Inr (bit (int (level thresholds (nrows m) r (nat nThres)
                 (logical matrix readColMajor (nrows m) (ncols m) r c)) mod 256) b))"
proof -
  from clearAll_empty [OF wf] obtain m0 where
    m0: "clearAll m = Inr m0" "sameShape m m0" by blast
  have f: "nrows m0 = nrows m" "ncols m0 = ncols m" using m0(2) by (simp_all add: sameShape_def)
  have "\<exists>m'. forM [0..<nrows m] (\<lambda>r. forM [0..<ncols m]
               (\<lambda>c. quantizeElem matrix thresholds nThres readColMajor r c)) m0 = Inr m'"
    by (rule cells_total [OF m0(2)]) (rule quantizeElem_total [OF wf _ _ _ len thr nb])
  then obtain m' where run: "importRegularAndQuantize m matrix thresholds nThres readColMajor = Inr m'"
    using m0(1) us by (auto simp: importRegularAndQuantize_def f)
  from importRegularAndQuantize_bitsSet [OF wf run] have sh: "sameShape m m'"
    and bs: "bitsSet m' = logicalBits m (qbyte m matrix thresholds nThres readColMajor)" by blast+
  have wf': "wellFormed m'" by (rule sameShape_wellFormed [OF sh wf])
  have "get m' b r c = Inr (bit (int (level thresholds (nrows m) r (nat nThres)
                 (logical matrix readColMajor (nrows m) (ncols m) r c)) mod 256) b)"
    if a: "r < nrows m \<and> c < ncols m \<and> b < nbits m" for r c b
  proof -
    have ra: "b < nbits m'" "r < nrows_a m'" "c < ncols_a m'"
      using a wf sh by (simp_all add: sameShape_def wellFormed_def)
    have "qbyte m matrix thresholds nThres readColMajor r c
           = int (level thresholds (nrows m) r (nat nThres)
                 (logical matrix readColMajor (nrows m) (ncols m) r c)) mod 256"
      using a quantize_level [OF _ thr] by (simp add: qbyte_def)
    then show ?thesis
      using get_bitsSet [OF wf' ra] a unfolding bs by (simp add: logicalBits_def)
  qed
  with run show ?thesis by blast
qed

text \<open>
  C7, as amended. \<open>importRegularAndQuantize\<close> fails its assertion on a signed
  matrix. On a well-formed unsigned matrix of at most 32 bits, with at least one
  threshold and source and threshold arrays that cover the matrix, it returns, and
  plane \<open>b\<close> of every logical cell \<open>(r, c)\<close> holds bit \<open>b\<close> of \<open>q mod 256\<close>, where
  \<open>q\<close> is the smallest index \<open>t\<close> with \<open>src[r,c] \<le> thresholds[t][r]\<close>, or \<open>nThres\<close>
  when there is none: the level goes through a \<open>uint8_t\<close>. Nothing is said of
  \<open>nThres = 0\<close>.
\<close>

theorem importRegularAndQuantize_levels:
  assumes "wellFormed m"
  shows "(issigned m \<longrightarrow>
            importRegularAndQuantize m matrix thresholds nThres readColMajor = Inl AssertionFailed)
       \<and> (\<not> issigned m \<and> 0 < nThres \<and> nbits m \<le> 32
            \<and> nrows m * ncols m \<le> length matrix
            \<and> nat nThres * nrows m \<le> length thresholds \<and> length thresholds < 2 ^ 64 \<longrightarrow>
          (\<exists>m'. importRegularAndQuantize m matrix thresholds nThres readColMajor = Inr m'
             \<and> (\<forall>r c. r < nrows m \<and> c < ncols m \<longrightarrow>
                  (\<exists>q. firstCrossing thresholds (nrows m) r (nat nThres)
                          (logical matrix readColMajor (nrows m) (ncols m) r c) q
                      \<and> (\<forall>b<nbits m. get m' b r c = Inr (bit (int q mod 256) b))))))"
proof (intro conjI impI)
  assume "issigned m"
  then show "importRegularAndQuantize m matrix thresholds nThres readColMajor = Inl AssertionFailed"
    by (simp add: importRegularAndQuantize_def)
next
  assume a: "\<not> issigned m \<and> 0 < nThres \<and> nbits m \<le> 32
            \<and> nrows m * ncols m \<le> length matrix
            \<and> nat nThres * nrows m \<le> length thresholds \<and> length thresholds < 2 ^ 64"
  then have us: "\<not> issigned m" and pos: "0 < nThres" and nb: "nbits m \<le> 32"
    and len: "nrows m * ncols m \<le> length matrix"
    and thr: "nat nThres * nrows m \<le> length thresholds" "length thresholds < 2 ^ 64"
    by simp_all
  from importRegularAndQuantize_get [OF assms us len thr pos nb, where readColMajor = readColMajor]
  obtain m' where run: "importRegularAndQuantize m matrix thresholds nThres readColMajor = Inr m'"
    and g: "\<forall>r c b. r < nrows m \<and> c < ncols m \<and> b < nbits m \<longrightarrow>
          get m' b r c = Inr (bit (int (level thresholds (nrows m) r (nat nThres)
                 (logical matrix readColMajor (nrows m) (ncols m) r c)) mod 256) b)"
    by blast
  show "\<exists>m'. importRegularAndQuantize m matrix thresholds nThres readColMajor = Inr m'
             \<and> (\<forall>r c. r < nrows m \<and> c < ncols m \<longrightarrow>
                  (\<exists>q. firstCrossing thresholds (nrows m) r (nat nThres)
                          (logical matrix readColMajor (nrows m) (ncols m) r c) q
                      \<and> (\<forall>b<nbits m. get m' b r c = Inr (bit (int q mod 256) b))))"
    using run g firstCrossing_level by blast
qed

theorem importRegularAndQuantize_levels_witness:
  "(\<exists>m'. importRegularAndQuantize \<lparr>issigned = False, nbits = 2, nrows = 1, ncols = 2,
            nrows_a = 1, ncols_a = 64, data = [5, 5]\<rparr> [0, 7] [1, 5] 2 False = Inr m'
      \<and> (\<exists>q. firstCrossing [1, 5] 1 0 2 7 q \<and> get m' 1 0 1 = Inr (bit (int q mod 256) 1)))
   \<and> importRegularAndQuantize \<lparr>issigned = True, nbits = 2, nrows = 1, ncols = 2,
            nrows_a = 1, ncols_a = 64, data = [5, 5]\<rparr> [0, 7] [1, 5] 2 False
        = Inl AssertionFailed"
proof -
  let ?m = "\<lparr>issigned = False, nbits = 2, nrows = 1, ncols = 2,
            nrows_a = 1, ncols_a = 64, data = [5, 5 :: 64 word]\<rparr>"
  let ?s = "\<lparr>issigned = True, nbits = 2, nrows = 1, ncols = 2,
            nrows_a = 1, ncols_a = 64, data = [5, 5 :: 64 word]\<rparr>"
  have wf: "wellFormed ?m" "wellFormed ?s" by (simp_all add: wellFormed_def)
  note u = importRegularAndQuantize_levels [OF wf(1), where matrix = "[0, 7]"
      and thresholds = "[1, 5]" and nThres = 2 and readColMajor = False]
  from u obtain m' where run: "importRegularAndQuantize ?m [0, 7] [1, 5] 2 False = Inr m'"
    and cells: "\<forall>r c. r < nrows ?m \<and> c < ncols ?m \<longrightarrow>
        (\<exists>q. firstCrossing [1, 5] (nrows ?m) r (nat 2)
                (logical [0, 7] False (nrows ?m) (ncols ?m) r c) q
            \<and> (\<forall>b<nbits ?m. get m' b r c = Inr (bit (int q mod 256) b)))"
    by auto
  from cells [rule_format, of 0 1] obtain q where
    "firstCrossing [1, 5] 1 0 2 7 q" "get m' 1 0 1 = Inr (bit (int q mod 256) 1)"
    by (auto simp: logical_def)
  with run have a: "\<exists>m'. importRegularAndQuantize ?m [0, 7] [1, 5] 2 False = Inr m'
      \<and> (\<exists>q. firstCrossing [1, 5] 1 0 2 7 q \<and> get m' 1 0 1 = Inr (bit (int q mod 256) 1))"
    by blast
  have b: "importRegularAndQuantize ?s [0, 7] [1, 5] 2 False = Inl AssertionFailed"
    using importRegularAndQuantize_levels [OF wf(2), where matrix = "[0, 7]"
      and thresholds = "[1, 5]" and nThres = 2 and readColMajor = False] by simp
  from a b show ?thesis by blast
qed

text \<open>
  C7 as stated fails. With 256 thresholds and 9 bit-planes, an element above every
  threshold has level 256, whose bit 8 is set, but plane 8 stays clear. With no
  threshold at all the element itself is stored, not the level 0.
\<close>

theorem importRegularAndQuantize_counterexample:
  "(\<exists>m'. importRegularAndQuantize \<lparr>issigned = False, nbits = 9, nrows = 1, ncols = 1,
            nrows_a = 1, ncols_a = 64, data = replicate 9 5\<rparr> [1] (replicate 256 0) 256 False
          = Inr m'
      \<and> get m' 8 0 0 = Inr False
      \<and> firstCrossing (replicate 256 0) 1 0 256 1 256 \<and> bit (256 :: int) 8)
   \<and> (\<exists>m'. importRegularAndQuantize \<lparr>issigned = False, nbits = 1, nrows = 1, ncols = 1,
            nrows_a = 1, ncols_a = 64, data = [5]\<rparr> [1] [] 0 False = Inr m'
      \<and> get m' 0 0 0 = Inr True
      \<and> firstCrossing [] 1 0 0 1 0 \<and> \<not> bit (0 :: int) 0)"
proof -
  let ?m = "\<lparr>issigned = False, nbits = 9, nrows = 1, ncols = 1,
            nrows_a = 1, ncols_a = 64, data = replicate 9 (5 :: 64 word)\<rparr>"
  let ?T = "replicate 256 (0 :: int)"
  have wf: "wellFormed ?m" by (simp add: wellFormed_def)
  from importRegularAndQuantize_get [OF wf, where matrix = "[1]" and thresholds = ?T
      and nThres = 256 and readColMajor = False]
  obtain m' where run: "importRegularAndQuantize ?m [1] ?T 256 False = Inr m'"
    and g: "get m' 8 0 0 = Inr (bit (int (level ?T 1 0 256 (logical [1] False 1 1 0 0)) mod 256) 8)"
    by auto
  have "get m' 8 0 0 = Inr False"
    unfolding g using byte_high_bits [of "int (level ?T 1 0 256 (logical [1] False 1 1 0 0)) mod 256" 8]
    by simp
  moreover have "firstCrossing ?T 1 0 256 1 256" by (simp add: firstCrossing_def)
  moreover have "bit (256 :: int) 8" by (simp add: bit_iff_odd)
  ultimately have a: "\<exists>m'. importRegularAndQuantize ?m [1] ?T 256 False = Inr m'
      \<and> get m' 8 0 0 = Inr False \<and> firstCrossing ?T 1 0 256 1 256 \<and> bit (256 :: int) 8"
    using run by blast
  let ?n = "\<lparr>issigned = False, nbits = 1, nrows = 1, ncols = 1,
            nrows_a = 1, ncols_a = 64, data = [5 :: 64 word]\<rparr>"
  have run0: "importRegularAndQuantize ?n [1] [] 0 False = Inr (?n\<lparr>data := [1]\<rparr>)"
    by (simp add: run_defs quantize.simps Let_def)
  have "get (?n\<lparr>data := [1]\<rparr>) 0 0 0 = Inr True" by (simp add: run_defs)
  moreover have "firstCrossing [] 1 0 0 1 0" by (simp add: firstCrossing_def)
  ultimately have b: "\<exists>m'. importRegularAndQuantize ?n [1] [] 0 False = Inr m'
      \<and> get m' 0 0 0 = Inr True \<and> firstCrossing [] 1 0 0 1 0 \<and> \<not> bit (0 :: int) 0"
    using run0 by simp
  from a b show ?thesis by blast
qed

section \<open>Properties of the padding\<close>

text \<open>
  C4, as amended. On a well-formed matrix, that is with \<open>nrows \<le> nrows_a\<close>,
  \<open>ncols \<le> ncols_a\<close>, \<open>ncols_a\<close> a multiple of 64 and a buffer of
  \<open>nbits * nrows_a * ncols_a / 64\<close> words: \<open>importRegular\<close> returns on every source of
  \<open>int32_t\<close> values that covers the matrix, for up to 32 bit-planes (31 when signed), and
  \<open>importRegularAndQuantize\<close> returns on an unsigned matrix of up to 32 bit-planes with
  at least one threshold and arrays that cover the matrix; and after either, as after
  every import that returns at all, every bit at a padded position (row \<open>\<ge> nrows\<close> or
  column \<open>\<ge> ncols\<close>, within the allocated extents) reads 0 in every bit-plane.
\<close>

theorem import_padding_zero:
  assumes "wellFormed m"
  shows "(importable m matrix \<longrightarrow>
           (\<exists>m'. importRegular m matrix readColMajor = Inr m' \<and> paddingZero m'))
       \<and> (\<not> issigned m \<and> 0 < nThres \<and> nbits m \<le> 32
            \<and> nrows m * ncols m \<le> length matrix
            \<and> nat nThres * nrows m \<le> length thresholds \<and> length thresholds < 2 ^ 64 \<longrightarrow>
           (\<exists>m'. importRegularAndQuantize m matrix thresholds nThres readColMajor = Inr m'
              \<and> paddingZero m'))
       \<and> (\<forall>m'. importRegular m matrix readColMajor = Inr m'
              \<or> importRegularAndQuantize m matrix thresholds nThres readColMajor = Inr m'
            \<longrightarrow> paddingZero m')"
proof -
  have reg: "paddingZero m'" if "importRegular m matrix readColMajor = Inr m'" for m'
    using importRegular_bitsSet [OF assms that] logicalBits_padding [OF assms] by blast
  have qnt: "paddingZero m'"
    if "importRegularAndQuantize m matrix thresholds nThres readColMajor = Inr m'" for m'
    using importRegularAndQuantize_bitsSet [OF assms that] logicalBits_padding [OF assms] by blast
  show ?thesis
  proof (intro conjI impI allI)
    assume "importable m matrix"
    from importRegular_total [OF assms this] obtain m' where
      "importRegular m matrix readColMajor = Inr m'" by blast
    with reg show "\<exists>m'. importRegular m matrix readColMajor = Inr m' \<and> paddingZero m'"
      by blast
  next
    assume a: "\<not> issigned m \<and> 0 < nThres \<and> nbits m \<le> 32
            \<and> nrows m * ncols m \<le> length matrix
            \<and> nat nThres * nrows m \<le> length thresholds \<and> length thresholds < 2 ^ 64"
    then have us: "\<not> issigned m" and pos: "0 < nThres" and nb: "nbits m \<le> 32"
      and len: "nrows m * ncols m \<le> length matrix"
      and thr: "nat nThres * nrows m \<le> length thresholds" "length thresholds < 2 ^ 64"
      by simp_all
    from importRegularAndQuantize_get [OF assms us len thr pos nb,
        where readColMajor = readColMajor]
    obtain m' where "importRegularAndQuantize m matrix thresholds nThres readColMajor = Inr m'"
      by blast
    with qnt show "\<exists>m'. importRegularAndQuantize m matrix thresholds nThres readColMajor = Inr m'
              \<and> paddingZero m'" by blast
  next
    fix m'
    assume "importRegular m matrix readColMajor = Inr m'
       \<or> importRegularAndQuantize m matrix thresholds nThres readColMajor = Inr m'"
    then show "paddingZero m'" using reg qnt by blast
  qed
qed

theorem import_padding_zero_witness:
  "\<exists>m'. importRegular \<lparr>issigned = False, nbits = 2, nrows = 1, ncols = 1, nrows_a = 2,
            ncols_a = 64, data = [5, 5, 5, 5]\<rparr> [3] False = Inr m'
      \<and> data m' = [1, 0, 1, 0]
      \<and> get m' 0 0 1 = Inr False \<and> get m' 1 1 0 = Inr False"
proof -
  let ?m = "\<lparr>issigned = False, nbits = 2, nrows = 1, ncols = 1, nrows_a = 2,
            ncols_a = 64, data = [5, 5, 5, 5 :: 64 word]\<rparr>"
  let ?m' = "?m\<lparr>data := [1, 0, 1, 0]\<rparr>"
  have wf: "wellFormed ?m" by (simp add: wellFormed_def)
  have imp: "importable ?m [3]" by (simp add: importable_def)
  have rep: "replicate 4 (0 :: 64 word) = [0, 0, 0, 0]" by (simp add: numeral_eq_Suc)
  have run: "importRegular ?m [3] False = Inr ?m'"
    by (simp add: run_defs upt_conv_Cons Let_def rep)
  from import_padding_zero [OF wf, of "[3]" False] imp run have "paddingZero ?m'" by auto
  then have "get ?m' 0 0 1 = Inr False \<and> get ?m' 1 1 0 = Inr False"
    unfolding paddingZero_def by simp
  with run show ?thesis by simp
qed

text \<open>
  C4 as stated fails on a matrix whose \<open>ncols_a\<close> is not a multiple of 64, which \<open>alloc\<close>
  accepts. With \<open>colalign = 96\<close> a row has one word, and column 64 of row 0 addresses
  the word of row 1: after the import of \<open>[[0], [1]]\<close> the padded position
  \<open>(bit 0, row 0, column 64)\<close> reads 1. And beyond 32 bit-planes the import of a
  non-empty matrix is undefined (\<open>1 << 32\<close> on an \<open>int\<close>), so nothing holds of its result.
\<close>

theorem import_padding_counterexample:
  "(\<exists>m m'. alloc (Some (\<lambda>i. 5)) 1 2 1 False 1 96 = Inr m
      \<and> importRegular m [0, 1] False = Inr m'
      \<and> 0 < nbits m' \<and> 0 < nrows_a m' \<and> 64 < ncols_a m' \<and> ncols m' \<le> 64
      \<and> get m' 0 0 64 = Inr True
      \<and> \<not> paddingZero m')
   \<and> (\<exists>m. alloc (Some (\<lambda>i. 5)) 64 1 1 False 1 64 = Inr m
      \<and> importRegular m [0] False = Inl UndefinedShift)"
proof (intro conjI)
  let ?m = "\<lparr>issigned = False, nbits = 1, nrows = 2, ncols = 1, nrows_a = 2, ncols_a = 96,
             data = [5, 5 :: 64 word]\<rparr>"
  let ?m' = "?m\<lparr>data := [0, 1]\<rparr>"
  have a: "alloc (Some (\<lambda>i. 5)) 1 2 1 False 1 96 = Inr ?m"
    by (simp add: alloc_def newArray_def alignTo_def add64_def mul64_def wordsPerBitplane_def
        wordsPerRow_def Let_def upt_conv_Cons)
  have rep: "replicate 2 (0 :: 64 word) = [0, 0]" by (simp add: numeral_eq_Suc)
  have run: "importRegular ?m [0, 1] False = Inr ?m'"
    by (simp add: run_defs upt_conv_Cons Let_def rep)
  have g: "get ?m' 0 0 64 = Inr True" by (simp add: run_defs)
  have "\<not> paddingZero ?m'"
  proof
    assume "paddingZero ?m'"
    from this [unfolded paddingZero_def, rule_format, of 0 0 64]
    have "get ?m' 0 0 64 = Inr False" by simp
    with g show False by simp
  qed
  with a run g show "\<exists>m m'. alloc (Some (\<lambda>i. 5)) 1 2 1 False 1 96 = Inr m
      \<and> importRegular m [0, 1] False = Inr m'
      \<and> 0 < nbits m' \<and> 0 < nrows_a m' \<and> 64 < ncols_a m' \<and> ncols m' \<le> 64
      \<and> get m' 0 0 64 = Inr True
      \<and> \<not> paddingZero m'"
    by (intro exI [of _ ?m] exI [of _ ?m']) simp
next
  let ?m = "\<lparr>issigned = False, nbits = 64, nrows = 1, ncols = 1, nrows_a = 1, ncols_a = 64,
             data = replicate 64 (5 :: 64 word)\<rparr>"
  have "map (\<lambda>i. 5 :: 64 word) [0..<64] = replicate 64 5"
    by (simp add: map_replicate_const [of _ "[0..<64]", simplified])
  then have a: "alloc (Some (\<lambda>i. 5)) 64 1 1 False 1 64 = Inr ?m"
    by (simp add: alloc_def newArray_def alignTo_def add64_def mul64_def wordsPerBitplane_def
        wordsPerRow_def Let_def)
  have "importRegular ?m [0] False = Inl UndefinedShift"
    by (simp add: run_defs upt_conv_Cons Let_def)
  with a show "\<exists>m. alloc (Some (\<lambda>i. 5)) 64 1 1 False 1 64 = Inr m
      \<and> importRegular m [0] False = Inl UndefinedShift" by blast
qed

section \<open>Properties of the exporter\<close>

lemma take_bit_as_sum: "(\<Sum>b<k. if bit (u::int) b then 2 ^ b else 0) = take_bit k u"
  by (induction k) (simp_all add: take_bit_Suc_from_most)

lemma plane_sum_bounds:
  "0 \<le> (\<Sum>b<k. if f b then (2::int) ^ b else 0) \<and> (\<Sum>b<k. if f b then (2::int) ^ b else 0) < 2 ^ k"
  by (induction k) auto

lemma decodeElem_sum:
  assumes wf: "wellFormed m" and rc: "r < nrows_a m" "c < ncols_a m" and nb: "nbits m \<le> 31"
  shows "decodeElem m r c
           = Inr (\<Sum>b<nbits m. if (b, r, c) \<in> bitsSet m then planeValue m b else 0)"
proof -
  let ?f = "\<lambda>b. (b, r, c) \<in> bitsSet m"
  let ?S = "\<lambda>k. \<Sum>b<k. if ?f b then planeValue m b else 0"
  let ?I = "\<lambda>k cur. cur = ?S k \<and> (k < nbits m \<or> \<not> issigned m \<longrightarrow> 0 \<le> cur \<and> cur < 2 ^ k)"
  let ?body = "\<lambda>b currentElem.
       andThen (get m b r c) (\<lambda>isSet.
         if isSet then
           andThen (shl_int b) (\<lambda>w.
             if b = sub64 (nbits m) 1 \<and> issigned m then sub32 currentElem w
             else add32 currentElem w)
         else Inr currentElem)"
  have 0: "?I 0 0" by simp
  have "\<exists>s'. forM [0..<nbits m] ?body 0 = Inr s' \<and> ?I (nbits m) s'"
  proof (rule forM_upt_total [where I = ?I, OF 0])
    fix i cur assume i: "i < nbits m" and I: "?I i cur"
    have g: "get m i r c = Inr (?f i)" by (rule get_bitsSet [OF wf i rc])
    have sh: "shl_int i = Inr (2 ^ i)" using i nb by (simp add: shl_int_def)
    have nbw: "nbits m < 2 ^ 64" using wf by (simp add: wellFormed_def)
    have sub: "sub64 (nbits m) 1 = nbits m - 1" using i nbw by (simp add: sub64_minus)
    have cur: "0 \<le> cur" "cur < 2 ^ i" "cur = ?S i" using I i by simp_all
    have p: "(2::int) ^ i \<le> 2 ^ 30" using i nb by (intro power_increasing) simp_all
    have plain: "cur = (\<Sum>b<i. if ?f b then 2 ^ b else 0)"
      unfolding cur(3) using i by (intro sum.cong) (auto simp: planeValue_def)
    show "\<exists>t'. ?body i cur = Inr t' \<and> ?I (Suc i) t'"
    proof (cases "?f i")
      case False
      then show ?thesis using g cur by simp
    next
      case True
      show ?thesis
      proof (cases "i = nbits m - 1 \<and> issigned m")
        case sgn: True
        have run: "?body i cur = Inr (cur - 2 ^ i)"
          using g True sh sub sgn cur(1,2) p by (simp add: sub32_def)
        have "planeValue m i = - (2 ^ i)" using sgn by (simp add: planeValue_def)
        then have "?S (Suc i) = cur - 2 ^ i" using True cur(3) by simp
        moreover have "\<not> (Suc i < nbits m \<or> \<not> issigned m)" using sgn i by auto
        ultimately have "?I (Suc i) (cur - 2 ^ i)" by simp
        then show ?thesis using run by blast
      next
        case uns: False
        have "add32 cur (2 ^ i) = Inr (cur + 2 ^ i)" using cur p by (simp add: add32_def)
        moreover have "cur + 2 ^ i < 2 ^ Suc i" using cur by simp
        moreover have "planeValue m i = 2 ^ i" using uns by (simp add: planeValue_def)
        ultimately show ?thesis using g True sh sub uns cur by auto
      qed
    qed
  qed
  then show ?thesis by (auto simp: decodeElem_def)
qed

lemma exportElem_write:
  assumes wf: "wellFormed m" and rc: "r < nrows m" "c < ncols m" and nb: "nbits m \<le> 31"
    and len: "nrows m * ncols m \<le> length dst"
  shows "exportElem m r c dst = Inr (dst[r * ncols m + c := cellValue m r c])"
proof -
  have rca: "r < nrows_a m" "c < ncols_a m" using wf rc by (simp_all add: wellFormed_def)
  have lt: "r * ncols m + c < nrows m * ncols m" by (rule cell_index [OF rc])
  have "nrows m * ncols m < 2 ^ 64" by (rule wellFormed_cells [OF wf])
  then have "r * ncols m + c < 2 ^ 64" "r * ncols m < 2 ^ 64" using lt by simp_all
  then have ix: "add64 (mul64 r (ncols m)) c = r * ncols m + c"
    by (simp add: add64_def mul64_def)
  have w: "writeAt dst (r * ncols m + c) x = Inr (dst[r * ncols m + c := x])" for x
    using lt len by (simp add: writeAt_def)
  show ?thesis
  proof (cases "isBipolar m")
    case True
    then have "0 < nbits m" by (simp add: isBipolar_def)
    from get_bitsSet [OF wf this rca] show ?thesis
      using True ix w by (simp add: exportElem_def cellValue_def)
  next
    case False
    then show ?thesis
      using decodeElem_sum [OF wf rca nb] ix w by (simp add: exportElem_def cellValue_def)
  qed
qed

lemma exportRegular_rowMajor:
  assumes wf: "wellFormed m" and nb: "nbits m \<le> 31"
    and len: "length dst = nrows m * ncols m"
  shows "exportRegular m dst = Inr (rowMajor (nrows m) (ncols m) (cellValue m))"
proof -
  let ?nc = "ncols m"
  let ?g = "\<lambda>i. cellValue m (i div ?nc) (i mod ?nc)"
  let ?J = "\<lambda>r j s. length s = length dst \<and> (\<forall>i < r * ?nc + j. s ! i = ?g i)"
  let ?I = "\<lambda>r s. ?J r 0 s"
  have 0: "?I 0 dst" by simp
  have "\<exists>s'. forM [0..<nrows m] (\<lambda>r. forM [0..<?nc] (\<lambda>c. exportElem m r c)) dst = Inr s'
          \<and> ?I (nrows m) s'"
  proof (rule forM_upt_total [where I = ?I, OF 0])
    fix r s assume r: "r < nrows m" and I: "?I r s"
    have "\<exists>s'. forM [0..<?nc] (\<lambda>c. exportElem m r c) s = Inr s' \<and> ?J r ?nc s'"
    proof (rule forM_upt_total [where I = "?J r", OF I])
      fix j t assume j: "j < ?nc" and J: "?J r j t"
      have l: "nrows m * ?nc \<le> length t" using J len by simp
      have lt: "r * ?nc + j < length t" using cell_index [OF r j] l by simp
      have e: "exportElem m r j t = Inr (t[r * ?nc + j := cellValue m r j])"
        by (rule exportElem_write [OF wf r j nb l])
      have "?g (r * ?nc + j) = cellValue m r j" using j by simp
      then have "?J r (Suc j) (t[r * ?nc + j := cellValue m r j])"
        using J lt by (auto simp: nth_list_update less_Suc_eq)
      then show "\<exists>t'. exportElem m r j t = Inr t' \<and> ?J r (Suc j) t'" using e by simp
    qed
    then show "\<exists>s'. forM [0..<?nc] (\<lambda>c. exportElem m r c) s = Inr s' \<and> ?I (Suc r) s'"
      by (simp add: add.commute)
  qed
  then obtain s' where run: "exportRegular m dst = Inr s'" and I: "?I (nrows m) s'"
    by (auto simp: exportRegular_def)
  have "s' = rowMajor (nrows m) ?nc (cellValue m)"
    using I len by (intro nth_equalityI) (simp_all add: rowMajor_def)
  then show ?thesis using run by simp
qed

lemma top_bit_split:
  fixes w :: int
  assumes "2 ^ n \<le> w" "w < 2 ^ Suc n"
  shows "bit w n" "take_bit n w = w - 2 ^ n"
proof -
  have "0 \<le> w" using assms(1) by (smt (verit) zero_le_power)
  then have t: "take_bit (Suc n) w = w" using assms(2) by (simp add: take_bit_int_eq_self)
  have s: "take_bit (Suc n) w = 2 ^ n * of_bool (bit w n) + take_bit n w"
    by (rule take_bit_Suc_from_most)
  have lt: "take_bit n w < 2 ^ n" by simp
  show b: "bit w n"
  proof (rule ccontr)
    assume "\<not> bit w n"
    then have "w = take_bit n w" using t s by simp
    then show False using lt assms(1) by simp
  qed
  show "take_bit n w = w - 2 ^ n" using t s b by simp
qed

lemma low_bit_clear:
  fixes v :: int
  assumes "0 \<le> v" "v < 2 ^ n"
  shows "\<not> bit v n"
proof -
  have "take_bit n v = v" using assms by (simp add: take_bit_int_eq_self)
  then have "bit v n = bit (take_bit n v) n" by simp
  then show ?thesis by (simp add: bit_take_bit_iff)
qed

lemma encode_decodes:
  assumes nb: "\<not> isBipolar m" and n8: "nbits m \<le> 8" and sg: "issigned m \<longrightarrow> 0 < nbits m"
    and rg: "inRange m v"
  shows "(\<Sum>b<nbits m. if bit (encode m v) b then planeValue m b else 0) = v"
proof (cases "issigned m")
  case False
  then have v: "0 \<le> v" "v < 2 ^ nbits m" using rg nb by (simp_all add: inRange_def)
  have "(2::int) ^ nbits m \<le> 2 ^ 8" using n8 by (intro power_increasing) simp_all
  then have "v < 256" using v by simp
  then have e: "encode m v = v" using False nb v by (simp add: encode_def)
  have pv: "planeValue m b = 2 ^ b" for b using False by (simp add: planeValue_def)
  have "(\<Sum>b<nbits m. if bit v b then planeValue m b else 0)
          = (\<Sum>b<nbits m. if bit v b then 2 ^ b else 0)"
    unfolding pv ..
  also have "\<dots> = take_bit (nbits m) v" by (rule take_bit_as_sum)
  also have "\<dots> = v" using v by (simp add: take_bit_int_eq_self)
  finally show ?thesis unfolding e .
next
  case True
  then obtain n where n: "nbits m = Suc n" using sg by (cases "nbits m") auto
  have v: "- (2 ^ n) \<le> v" "v < 2 ^ n" using rg nb True n by (simp_all add: inRange_def)
  have "(2::int) ^ nbits m \<le> 2 ^ 8" using n8 by (intro power_increasing) simp_all
  then have p8: "(2::int) ^ Suc n \<le> 256" using n by simp
  let ?u = "encode m v"
  have split: "(\<Sum>b<nbits m. if bit u b then planeValue m b else 0)
          = take_bit n u - (if bit u n then 2 ^ n else 0)" for u
  proof -
    have "(\<Sum>b<n. if bit u b then planeValue m b else 0) = (\<Sum>b<n. if bit u b then 2 ^ b else 0)"
      using n by (intro sum.cong) (auto simp: planeValue_def)
    then have "(\<Sum>b<n. if bit u b then planeValue m b else 0) = take_bit n u"
      by (simp add: take_bit_as_sum)
    moreover have "planeValue m n = - (2 ^ n)" using True n by (simp add: planeValue_def)
    ultimately show ?thesis unfolding n by simp
  qed
  show ?thesis
  proof (cases "v < 0")
    case False
    then have "v < 256" using v p8 by simp
    then have e: "?u = v" using False nb by (simp add: encode_def)
    have "\<not> bit v n" using low_bit_clear [of v n] False v by simp
    moreover have "take_bit n v = v" using False v by (simp add: take_bit_int_eq_self)
    ultimately show ?thesis unfolding e split by simp
  next
    case neg: True
    let ?w = "v + 2 ^ Suc n"
    have w: "2 ^ n \<le> ?w" "?w < 2 ^ Suc n" using v neg by simp_all
    then have "0 \<le> ?w" "?w < 256" using p8 by (smt (verit) zero_le_power)+
    then have e: "?u = ?w" using neg nb True n by (simp add: encode_def)
    from top_bit_split [OF w] show ?thesis unfolding e split by simp
  qed
qed

lemma imported_cellValue:
  assumes wf: "wellFormed m" and run: "importRegular m matrix readColMajor = Inr m'"
    and n8: "nbits m \<le> 8" and sg: "issigned m \<longrightarrow> 0 < nbits m"
    and rc: "r < nrows m" "c < ncols m"
    and rg: "inRange m (logical matrix readColMajor (nrows m) (ncols m) r c)"
  shows "cellValue m' r c = logical matrix readColMajor (nrows m) (ncols m) r c"
proof -
  let ?v = "logical matrix readColMajor (nrows m) (ncols m) r c"
  from importRegular_bitsSet [OF wf run] have sh: "sameShape m m'"
    and bs: "bitsSet m' = logicalBits m (stored m matrix readColMajor)" by blast+
  have f: "isBipolar m' = isBipolar m" "nbits m' = nbits m" "issigned m' = issigned m"
    using sh by (auto simp: sameShape_def isBipolar_def)
  have mem: "(b, r, c) \<in> bitsSet m' \<longleftrightarrow> b < nbits m \<and> bit (encode m ?v) b" for b
    unfolding bs using rc by (simp add: logicalBits_def stored_def)
  show ?thesis
  proof (cases "isBipolar m")
    case True
    then have "?v = 1 \<or> ?v = - 1" using rg by (simp add: inRange_def)
    then show ?thesis using True f mem [of 0]
      by (auto simp: cellValue_def encode_def isBipolar_def)
  next
    case False
    have "cellValue m' r c = (\<Sum>b<nbits m. if bit (encode m ?v) b then planeValue m b else 0)"
      using False f by (simp add: cellValue_def mem planeValue_def cong: if_cong)
    then show ?thesis using encode_decodes [OF False n8 sg rg] by simp
  qed
qed

lemma rowMajor_logical: 
  assumes "length matrix = nr * nc"
  shows "rowMajor nr nc (logical matrix False nr nc) = matrix"
proof -
  have "rowMajor nr nc (logical matrix False nr nc) = map (\<lambda>i. matrix ! i) [0..<length matrix]"
    unfolding rowMajor_def assms by (intro map_cong) (simp_all add: logical_def)
  then show ?thesis by (simp add: map_nth)
qed

lemma inRange_importable:
  assumes "nbits m \<le> 8" "issigned m \<longrightarrow> 0 < nbits m" "\<forall>v\<in>set matrix. inRange m v"
    "length matrix = nrows m * ncols m"
  shows "importable m matrix"
proof -
  have p: "(2::int) ^ k \<le> 2 ^ 8" if "k \<le> 8" for k using that by (intro power_increasing) simp_all
  have p1: "(2::int) ^ nbits m \<le> 256" "(2::int) ^ (nbits m - 1) \<le> 256"
    using p [of "nbits m"] p [of "nbits m - 1"] assms(1) by simp_all
  have "- (2 ^ 31) \<le> v \<and> v < 2 ^ 31" if "inRange m v" for v
  proof -
    from that have "- 256 \<le> v \<and> v < 256"
      using p1 by (auto simp: inRange_def split: if_splits)
    then show ?thesis by simp
  qed
  then show ?thesis using assms by (simp add: importable_def)
qed

text \<open>
  C2, as amended. On a well-formed matrix of at most 8 bits (at least 1 when signed),
  every source matrix whose elements are in range for \<open>(nbits, signed)\<close> is
  imported, and \<open>exportRegular\<close> then writes the logical matrix back in row-major
  order: the source itself when it was read row-major, and the row-major layout of the
  same logical matrix when it was read column-major.
\<close>

theorem export_import_roundtrip:
  assumes "wellFormed m" "nbits m \<le> 8" "issigned m \<longrightarrow> 0 < nbits m"
    and "length matrix = nrows m * ncols m" "length dst = nrows m * ncols m"
    and "\<forall>v\<in>set matrix. inRange m v"
  shows "\<exists>m'. importRegular m matrix readColMajor = Inr m'
           \<and> exportRegular m' dst
               = Inr (rowMajor (nrows m) (ncols m)
                        (logical matrix readColMajor (nrows m) (ncols m)))
           \<and> (\<not> readColMajor \<longrightarrow> exportRegular m' dst = Inr matrix)"
proof -
  have "importable m matrix" by (rule inRange_importable [OF assms(2,3,6,4)])
  from importRegular_total [OF assms(1) this] obtain m' where
    run: "importRegular m matrix readColMajor = Inr m'" by blast
  from importRegular_bitsSet [OF assms(1) run] have sh: "sameShape m m'" by blast
  have wf': "wellFormed m'" by (rule sameShape_wellFormed [OF sh assms(1)])
  have f: "nrows m' = nrows m" "ncols m' = ncols m" "nbits m' = nbits m"
    using sh by (simp_all add: sameShape_def)
  have "exportRegular m' dst = Inr (rowMajor (nrows m') (ncols m') (cellValue m'))"
    by (rule exportRegular_rowMajor [OF wf']) (use assms f in simp_all)
  moreover have "rowMajor (nrows m) (ncols m) (cellValue m')
      = rowMajor (nrows m) (ncols m) (logical matrix readColMajor (nrows m) (ncols m))"
    unfolding rowMajor_def
  proof (intro map_cong refl)
    fix i assume "i \<in> set [0..<nrows m * ncols m]"
    then have i: "i < nrows m * ncols m" by simp
    then have c: "i mod ncols m < ncols m" by (cases "ncols m = 0") simp_all
    have r: "i div ncols m < nrows m" using i by (simp add: less_mult_imp_div_less)
    have "logical matrix readColMajor (nrows m) (ncols m) (i div ncols m) (i mod ncols m) \<in> set matrix"
      using logical_in_set [OF r c] assms(4) by simp
    then have "inRange m (logical matrix readColMajor (nrows m) (ncols m) (i div ncols m) (i mod ncols m))"
      using assms(6) by blast
    from imported_cellValue [OF assms(1) run assms(2,3) r c this]
    show "cellValue m' (i div ncols m) (i mod ncols m)
        = logical matrix readColMajor (nrows m) (ncols m) (i div ncols m) (i mod ncols m)" .
  qed
  ultimately have e: "exportRegular m' dst = Inr (rowMajor (nrows m) (ncols m)
                        (logical matrix readColMajor (nrows m) (ncols m)))"
    using f by simp
  then have "\<not> readColMajor \<longrightarrow> exportRegular m' dst = Inr matrix"
    using rowMajor_logical [OF assms(4)] by auto
  with run e show ?thesis by blast
qed

theorem export_import_roundtrip_witness:
  "\<exists>m'. importRegular \<lparr>issigned = True, nbits = 3, nrows = 2, ncols = 3, nrows_a = 2,
            ncols_a = 64, data = [5, 5, 5, 5, 5, 5]\<rparr> [- 4, 3, 2, 1, 0, - 1] True = Inr m'
      \<and> exportRegular m' [0, 0, 0, 0, 0, 0] = Inr [- 4, 2, 0, 3, 1, - 1]"
proof -
  let ?m = "\<lparr>issigned = True, nbits = 3, nrows = 2, ncols = 3, nrows_a = 2,
            ncols_a = 64, data = [5, 5, 5, 5, 5, 5 :: 64 word]\<rparr>"
  let ?src = "[- 4, 3, 2, 1, 0, - 1 :: int]"
  have h: "wellFormed ?m" "nbits ?m \<le> 8" "issigned ?m \<longrightarrow> 0 < nbits ?m"
    "length ?src = nrows ?m * ncols ?m" "length [0, 0, 0, 0, 0, 0 :: int] = nrows ?m * ncols ?m"
    "\<forall>v\<in>set ?src. inRange ?m v"
    by (simp_all add: wellFormed_def inRange_def isBipolar_def)
  have "rowMajor 2 3 (logical ?src True 2 3) = [- 4, 2, 0, 3, 1, - 1]"
    by (simp add: rowMajor_def logical_def upt_conv_Cons)
  then show ?thesis
    using export_import_roundtrip [OF h, of True] by simp
qed

text \<open>
  C2 as stated fails beyond 8 bits: 256 is in range for 9 unsigned bits, but its cast
  to \<open>uint8_t\<close> is 0, so nothing is stored and 0 comes back.
\<close>

theorem export_import_counterexample:
  "inRange \<lparr>issigned = False, nbits = 9, nrows = 1, ncols = 1, nrows_a = 1,
            ncols_a = 64, data = [5, 5, 5, 5, 5, 5, 5, 5, 5]\<rparr> 256
   \<and> (\<exists>m'. importRegular \<lparr>issigned = False, nbits = 9, nrows = 1, ncols = 1, nrows_a = 1,
            ncols_a = 64, data = [5, 5, 5, 5, 5, 5, 5, 5, 5]\<rparr> [256] False = Inr m'
      \<and> exportRegular m' [7] = Inr [0])"
proof -
  let ?m = "\<lparr>issigned = False, nbits = 9, nrows = 1, ncols = 1, nrows_a = 1,
            ncols_a = 64, data = [5, 5, 5, 5, 5, 5, 5, 5, 5 :: 64 word]\<rparr>"
  have rg: "inRange ?m 256" by (simp add: inRange_def isBipolar_def)
  have wf: "wellFormed ?m" by (simp add: wellFormed_def)
  have "importable ?m [256]" by (simp add: importable_def)
  from importRegular_total [OF wf this] obtain m' where
    run: "importRegular ?m [256] False = Inr m'" by blast
  from importRegular_bitsSet [OF wf run] have sh: "sameShape ?m m'"
    and bs: "bitsSet m' = logicalBits ?m (stored ?m [256] False)" by blast+
  have wf': "wellFormed m'" by (rule sameShape_wellFormed [OF sh wf])
  have f: "nrows m' = 1" "ncols m' = 1" "nbits m' = 9" "\<not> isBipolar m'"
    using sh by (simp_all add: sameShape_def isBipolar_def)
  have "stored ?m [256] False 0 0 = 0"
    by (simp add: stored_def encode_def logical_def isBipolar_def)
  then have "bitsSet m' = {}" unfolding bs by (auto simp: logicalBits_def)
  then have cv: "cellValue m' 0 0 = 0" using f by (simp add: cellValue_def)
  have "exportRegular m' [7] = Inr (rowMajor (nrows m') (ncols m') (cellValue m'))"
    by (rule exportRegular_rowMajor [OF wf']) (simp_all add: f)
  then have "exportRegular m' [7] = Inr [0]" using cv by (simp add: f rowMajor_def)
  with rg run show ?thesis by blast
qed

section \<open>Properties of the context allocator\<close>

lemma alignTo_bound:
  assumes "alignTo r a = Inr x" "r < 2 ^ 64"
  shows "x < 2 ^ 64" "a \<noteq> 0"
  using assms by (auto simp: alignTo_def add64_def split: if_splits)

lemma alignTo_dvd:
  assumes al: "alignTo r a = Inr x" and r: "r < 2 ^ 64" and a: "a < 2 ^ 64" and le: "r \<le> x"
  shows "a dvd x"
proof (cases "r mod a = 0")
  case True
  then show ?thesis using al by (auto simp: alignTo_def split: if_splits)
next
  case False
  have a0: "a \<noteq> 0" using al by (auto simp: alignTo_def split: if_splits)
  let ?p = "a - r mod a"
  let ?S = "r + ?p"
  have x: "x = ?S mod 2 ^ 64" using al False a0 by (simp add: alignTo_def add64_def)
  have lt: "r mod a < a" using a0 by simp
  define q where "q = r div a * a"
  have "r = q + r mod a" unfolding q_def by simp
  then have "?S = q + a" using lt by linarith
  then have d: "a dvd ?S" unfolding q_def by simp
  have p: "?p \<le> a" by simp
  show ?thesis
  proof (cases "?S < 2 ^ 64")
    case True
    then show ?thesis using x d by simp
  next
    case big: False
    have S2: "?S - 2 ^ 64 < 2 ^ 64" using r a p by linarith
    have "?S mod 2 ^ 64 = (?S - 2 ^ 64) mod 2 ^ 64" using big by (intro le_mod_geq) simp
    also have "\<dots> = ?S - 2 ^ 64" using S2 by (rule mod_less)
    finally have "x = ?S - 2 ^ 64" using x by simp
    then have "x < r" using a p big by linarith
    then show ?thesis using le by simp
  qed
qed

lemma to_uint64_bound: "to_uint64 a = Inr n \<Longrightarrow> n < 2 ^ 64"
  by (cases a) (auto split: if_splits simp: nat_less_iff)

lemma computeBlockSize_result:
  assumes "computeBlockSize lhsMult rhsMult cacheBits dBits = Inr (L, R)"
  shows "L < 2 ^ 64 \<and> R < 2 ^ 64"
  using assms unfolding computeBlockSize_def Let_def
  by (auto simp: andThen_eq_Inr split: if_splits dest: to_uint64_bound)

lemma finetuneBlockSize_le:
  assumes "finetuneBlockSize rows bs_max bs_div = Inr r"
    "rows < 2 ^ 64" "bs_max < 2 ^ 64" "0 < bs_div" "0 < bs_max"
  shows "r \<le> bs_max"
proof -
  from finetuneBlockSize_examined [OF assms(2-5)] assms(1)
  have "r \<in> examined bs_max bs_div" by (auto simp: best_of_def)
  then show ?thesis by (auto simp: examined_def)
qed

lemma finetuneBlockSize_le_max:
  assumes run: "finetuneBlockSize rows bs_max bs_div = Inr r"
    and b: "rows < 2 ^ 64" "bs_max < 2 ^ 64"
  shows "r \<le> bs_max"
proof -
  from run obtain al where al: "alignTo rows bs_max = Inr al"
    and loop: "finetune_loop rows bs_div bs_max bs_max (sub64 al rows) = Inr r"
    by (auto simp: finetuneBlockSize_def split: sum.splits)
  have pos: "0 < bs_max" using alignTo_bound(2) [OF al b(1)] by simp
  show ?thesis
  proof (cases "bs_div = 0")
    case True
    then have "finetune_loop rows bs_div bs_max bs_max (sub64 al rows) = Inl DivisionByZero"
      using pos by (subst finetune_loop.simps) simp
    then show ?thesis using loop by simp
  next
    case False
    then show ?thesis using finetuneBlockSize_le [OF run b _ pos] by simp
  qed
qed

lemma tuneBlock_bound:
  assumes "tuneBlock rows block regblock = Inr b" "rows < 2 ^ 64" "block < 2 ^ 64"
  shows "b < 2 ^ 64"
proof -
  from assms(1) have "b = block \<or> finetuneBlockSize rows block regblock = Inr b"
    by (auto simp: tuneBlock_def andThen_eq_Inr split: if_splits)
  then show ?thesis
  proof
    assume "b = block" then show ?thesis using assms(3) by simp
  next
    assume "finetuneBlockSize rows block regblock = Inr b"
    from finetuneBlockSize_le_max [OF this assms(2,3)] show ?thesis using assms(3) by simp
  qed
qed

lemma alloc_rows:
  assumes "alloc mem nb nr nc signd rowalign colalign = Inr m"
  shows "nrows m = nr \<and> alignTo nr rowalign = Inr (nrows_a m)"
  using assms by (auto simp: alloc_def andThen_eq_Inr Let_def split: if_splits)

lemma allocGEMMContext_base_parts:
  assumes "allocGEMMContext_base memL memR memRes lhsRows depth rhsRows lhsBits rhsBits
             lhsSigned rhsSigned regblock_lhs regblock_d regblock_rhs cacheBits = Inr ctx"
  shows "\<exists>depth_al candL candR.
     alignTo depth (mul64 regblock_d 64) = Inr depth_al
   \<and> computeBlockSize (of_uint64 binary32 regblock_lhs) (of_uint64 binary32 regblock_rhs)
        (of_uint64 binary32 cacheBits) (of_uint64 binary32 depth_al) = Inr (candL, candR)
   \<and> (if candL > lhsRows \<or> candR > rhsRows
       then alignTo lhsRows regblock_lhs = Inr (lhsBlock ctx)
            \<and> alignTo rhsRows regblock_rhs = Inr (rhsBlock ctx)
       else tuneBlock lhsRows candL regblock_lhs = Inr (lhsBlock ctx)
            \<and> tuneBlock rhsRows candR regblock_rhs = Inr (rhsBlock ctx))
   \<and> alloc memL lhsBits lhsRows depth lhsSigned (lhsBlock ctx) (mul64 regblock_d 64)
        = Inr (lhs ctx)
   \<and> alloc memR rhsBits rhsRows depth rhsSigned (rhsBlock ctx) (mul64 regblock_d 64)
        = Inr (rhs ctx)"
proof -
  from assms obtain depth_al cand where
    d: "alignTo depth (mul64 regblock_d 64) = Inr depth_al"
    and c: "computeBlockSize (of_uint64 binary32 regblock_lhs) (of_uint64 binary32 regblock_rhs)
        (of_uint64 binary32 cacheBits) (of_uint64 binary32 depth_al) = Inr cand"
    and rest: "(case cand of (candL, candR) \<Rightarrow>
       andThen
       (if candL > lhsRows \<or> candR > rhsRows then
          andThen (alignTo lhsRows regblock_lhs) (\<lambda>lb.
          andThen (alignTo rhsRows regblock_rhs) (\<lambda>rb. Inr (lb, rb)))
        else
          andThen (tuneBlock lhsRows candL regblock_lhs) (\<lambda>lb.
          andThen (tuneBlock rhsRows candR regblock_rhs) (\<lambda>rb. Inr (lb, rb))))
       (\<lambda>(lb, rb).
     andThen (alloc memL lhsBits lhsRows depth lhsSigned lb (mul64 regblock_d 64)) (\<lambda>l.
     andThen (alloc memR rhsBits rhsRows depth rhsSigned rb (mul64 regblock_d 64)) (\<lambda>r.
     andThen (newArray 4 memRes (mul64 lhsRows rhsRows)) (\<lambda>buf.
       Inr \<lparr>lhs = l, rhs = r, lhsBlock = lb, rhsBlock = rb, res = buf\<rparr>))))) = Inr ctx"
    unfolding allocGEMMContext_base_def andThen_eq_Inr by blast
  obtain candL candR where cand: "cand = (candL, candR)" by (cases cand)
  from rest [unfolded cand prod.case andThen_eq_Inr] obtain blocks where
    b: "(if candL > lhsRows \<or> candR > rhsRows then
          andThen (alignTo lhsRows regblock_lhs) (\<lambda>lb.
          andThen (alignTo rhsRows regblock_rhs) (\<lambda>rb. Inr (lb, rb)))
        else
          andThen (tuneBlock lhsRows candL regblock_lhs) (\<lambda>lb.
          andThen (tuneBlock rhsRows candR regblock_rhs) (\<lambda>rb. Inr (lb, rb)))) = Inr blocks"
    and al: "(case blocks of (lb, rb) \<Rightarrow>
     andThen (alloc memL lhsBits lhsRows depth lhsSigned lb (mul64 regblock_d 64)) (\<lambda>l.
     andThen (alloc memR rhsBits rhsRows depth rhsSigned rb (mul64 regblock_d 64)) (\<lambda>r.
     andThen (newArray 4 memRes (mul64 lhsRows rhsRows)) (\<lambda>buf.
       Inr \<lparr>lhs = l, rhs = r, lhsBlock = lb, rhsBlock = rb, res = buf\<rparr>)))) = Inr ctx"
    by blast
  obtain lb rb where blocks: "blocks = (lb, rb)" by (cases blocks)
  from al [unfolded blocks prod.case andThen_eq_Inr] obtain l r buf where
    l: "alloc memL lhsBits lhsRows depth lhsSigned lb (mul64 regblock_d 64) = Inr l"
    and r: "alloc memR rhsBits rhsRows depth rhsSigned rb (mul64 regblock_d 64) = Inr r"
    and ctx: "Inr \<lparr>lhs = l, rhs = r, lhsBlock = lb, rhsBlock = rb, res = buf\<rparr> = Inr ctx"
    by blast
  from ctx have f: "lhs ctx = l" "rhs ctx = r" "lhsBlock ctx = lb" "rhsBlock ctx = rb"
    by auto
  have "if candL > lhsRows \<or> candR > rhsRows
       then alignTo lhsRows regblock_lhs = Inr lb \<and> alignTo rhsRows regblock_rhs = Inr rb
       else tuneBlock lhsRows candL regblock_lhs = Inr lb
            \<and> tuneBlock rhsRows candR regblock_rhs = Inr rb"
    using b unfolding blocks by (auto simp: andThen_eq_Inr split: if_splits)
  then show ?thesis using d c [unfolded cand] l r f by auto
qed

text \<open>
  C8, as amended. For every context that \<open>allocGEMMContext_base\<close> returns on row
  counts that are \<open>uint64_t\<close> values: if the solver's candidate for one side exceeds
  that side's rows, the blocks are \<open>alignTo(lhsRows, regblock_lhs)\<close> and
  \<open>alignTo(rhsRows, regblock_rhs)\<close>; and on each side the block divides the padded
  row count whenever the padded count is not below the logical one, that is, whenever
  \<open>alignTo\<close> did not wrap around \<open>2 ^ 64\<close>.
\<close>

theorem allocGEMMContext_base_blocks:
  assumes run: "allocGEMMContext_base memL memR memRes lhsRows depth rhsRows lhsBits rhsBits
             lhsSigned rhsSigned regblock_lhs regblock_d regblock_rhs cacheBits = Inr ctx"
    and rows: "lhsRows < 2 ^ 64" "rhsRows < 2 ^ 64"
  shows "(\<forall>depth_al candL candR.
            alignTo depth (mul64 regblock_d 64) = Inr depth_al
            \<and> computeBlockSize (of_uint64 binary32 regblock_lhs) (of_uint64 binary32 regblock_rhs)
                 (of_uint64 binary32 cacheBits) (of_uint64 binary32 depth_al) = Inr (candL, candR)
            \<and> (candL > lhsRows \<or> candR > rhsRows)
          \<longrightarrow> alignTo lhsRows regblock_lhs = Inr (lhsBlock ctx)
              \<and> alignTo rhsRows regblock_rhs = Inr (rhsBlock ctx))
       \<and> (nrows (lhs ctx) \<le> nrows_a (lhs ctx) \<longrightarrow> lhsBlock ctx dvd nrows_a (lhs ctx))
       \<and> (nrows (rhs ctx) \<le> nrows_a (rhs ctx) \<longrightarrow> rhsBlock ctx dvd nrows_a (rhs ctx))"
proof -
  from allocGEMMContext_base_parts [OF run] obtain depth_al candL candR where
    d: "alignTo depth (mul64 regblock_d 64) = Inr depth_al"
    and c: "computeBlockSize (of_uint64 binary32 regblock_lhs) (of_uint64 binary32 regblock_rhs)
              (of_uint64 binary32 cacheBits) (of_uint64 binary32 depth_al) = Inr (candL, candR)"
    and b: "if candL > lhsRows \<or> candR > rhsRows
       then alignTo lhsRows regblock_lhs = Inr (lhsBlock ctx)
            \<and> alignTo rhsRows regblock_rhs = Inr (rhsBlock ctx)
       else tuneBlock lhsRows candL regblock_lhs = Inr (lhsBlock ctx)
            \<and> tuneBlock rhsRows candR regblock_rhs = Inr (rhsBlock ctx)"
    and l: "alloc memL lhsBits lhsRows depth lhsSigned (lhsBlock ctx) (mul64 regblock_d 64)
        = Inr (lhs ctx)"
    and r: "alloc memR rhsBits rhsRows depth rhsSigned (rhsBlock ctx) (mul64 regblock_d 64)
        = Inr (rhs ctx)"
    by blast
  from computeBlockSize_result [OF c] have cand: "candL < 2 ^ 64" "candR < 2 ^ 64" by simp_all
  have lb: "lhsBlock ctx < 2 ^ 64"
  proof (cases "candL > lhsRows \<or> candR > rhsRows")
    case True
    then show ?thesis using b alignTo_bound(1) [OF _ rows(1)] by auto
  next
    case False
    then have "tuneBlock lhsRows candL regblock_lhs = Inr (lhsBlock ctx)" using b by simp
    from tuneBlock_bound [OF this rows(1) cand(1)] show ?thesis .
  qed
  have rb: "rhsBlock ctx < 2 ^ 64"
  proof (cases "candL > lhsRows \<or> candR > rhsRows")
    case True
    then show ?thesis using b alignTo_bound(1) [OF _ rows(2)] by auto
  next
    case False
    then have "tuneBlock rhsRows candR regblock_rhs = Inr (rhsBlock ctx)" using b by simp
    from tuneBlock_bound [OF this rows(2) cand(2)] show ?thesis .
  qed
  have first: "alignTo lhsRows regblock_lhs = Inr (lhsBlock ctx)
              \<and> alignTo rhsRows regblock_rhs = Inr (rhsBlock ctx)"
    if "alignTo depth (mul64 regblock_d 64) = Inr depth_al'
            \<and> computeBlockSize (of_uint64 binary32 regblock_lhs) (of_uint64 binary32 regblock_rhs)
                 (of_uint64 binary32 cacheBits) (of_uint64 binary32 depth_al')
                 = Inr (candL', candR')
            \<and> (candL' > lhsRows \<or> candR' > rhsRows)" for depth_al' candL' candR'
  proof -
    have "depth_al' = depth_al" using that d by simp
    then have "candL' = candL" "candR' = candR" using that c by simp_all
    then show ?thesis using that b by auto
  qed
  from alloc_rows [OF l] have la: "nrows (lhs ctx) = lhsRows"
    "alignTo lhsRows (lhsBlock ctx) = Inr (nrows_a (lhs ctx))" by simp_all
  from alloc_rows [OF r] have ra: "nrows (rhs ctx) = rhsRows"
    "alignTo rhsRows (rhsBlock ctx) = Inr (nrows_a (rhs ctx))" by simp_all
  have dl: "lhsBlock ctx dvd nrows_a (lhs ctx)" if "nrows (lhs ctx) \<le> nrows_a (lhs ctx)"
    using alignTo_dvd [OF la(2) rows(1) lb] that la(1) by simp
  have dr: "rhsBlock ctx dvd nrows_a (rhs ctx)" if "nrows (rhs ctx) \<le> nrows_a (rhs ctx)"
    using alignTo_dvd [OF ra(2) rows(2) rb] that ra(1) by simp
  show ?thesis using first dl dr by blast
qed

lemma solver_arguments:
  "of_uint64 binary32 4 = Fin 4" "of_uint64 binary32 65536 = Fin 65536"
  "of_uint64 binary32 256 = Fin 256" "of_uint64 binary32 6 = Fin 6"
  "of_uint64 binary32 1000 = Fin 1000" "of_uint64 binary32 64 = Fin 64"
  using round32_int [of 4] round32_int [of 65536] round32_int [of 256] round32_int [of 6]
    round32_int [of 1000] round32_int [of 64]
  by (simp_all add: of_uint64_def)

lemma computeBlockSize_6_6:
  "computeBlockSize (Fin 6) (Fin 6) (Fin 1000) (Fin 64) = Inr (6, 6)"
proof -
  have e: "fl_round binary32 4 = Fin 4" "fl_round binary32 2 = Fin 2"
    "fl_round binary32 24 = Fin 24" "fl_round binary32 144 = Fin 144"
    "fl_round binary32 12 = Fin 12" "fl_round binary32 768 = Fin 768"
    "fl_round binary32 589824 = Fin 589824" "fl_round binary32 576 = Fin 576"
    "fl_round binary32 (- 576000) = Fin (- 576000)"
    "fl_round binary32 1165824 = Fin 1165824"
    "fl_round binary32 288 = Fin 288" "fl_round binary32 1 = Fin 1"
    "fl_round binary32 6 = Fin 6"
    using round32_int [of 4] round32_int [of 2] round32_int [of 24] round32_int [of 144]
      round32_int [of 12] round32_int [of 768] round32_int [of 589824] round32_int [of 576]
      round32_int [of "- 576000"] round32_int [of 1165824] round32_int [of 288]
      round32_int [of 1] round32_int [of 6]
    by simp_all
  let ?s = "sqrt 1165824"
  have b: "1079 < ?s" "?s < 1080"
  proof -
    show "1079 < ?s" by (rule real_less_rsqrt) simp
    show "?s < 1080" by (rule real_less_lsqrt) simp_all
  qed
  from round32_between [of ?s ?s ?s 11] b obtain d where
    d: "fl_round binary32 ?s = Fin d" "1078 < d" "d < 1081" by auto
  from round32_between [of 310 "d - 768" 313 9] d(2,3) obtain n0 where
    n0: "fl_round binary32 (d - 768) = Fin n0" "309 < n0" "n0 < 314" by auto
  from round32_between [of "309 / 288" "n0 / 288" "314 / 288" 1] n0(2,3) obtain q0 where
    q0: "fl_round binary32 (n0 / 288) = Fin q0" "1 < q0" "q0 < 2" by auto
  have f0: "\<lfloor>q0\<rfloor> = 1" by (rule floor_unique) (use q0 in simp_all)
  from round32_between [of "- 1849" "- 768 - d" "- 1846" 11] d(2,3) obtain n1 where
    n1: "fl_round binary32 (- 768 - d) = Fin n1" "- 1850 < n1" "n1 < - 1845" by auto
  from round32_between [of "- 1850 / 288" "n1 / 288" "- 1845 / 288" 3] n1(2,3) obtain q1 where
    q1: "fl_round binary32 (n1 / 288) = Fin q1" "- 7 < q1" "q1 < - 6" by auto
  have f1: "\<lfloor>q1\<rfloor> = - 7" by (rule floor_unique) (use q1 in simp_all)
  have pos: "0 < d" using d by simp
  show ?thesis
    unfolding computeBlockSize_def
    by (simp add: of_uint64_def of_int64_def fl_sub_def e d n0 q0 f0 n1 q1 f1 pos Let_def
        toward_zero_def)
qed

theorem allocGEMMContext_base_blocks_witness:
  "\<exists>ctx. allocGEMMContext_base (Some (\<lambda>i. 0)) (Some (\<lambda>i. 0)) (Some (\<lambda>i. 0))
            10 200 10 2 2 False False 4 4 4 65536 = Inr ctx
     \<and> alignTo 10 4 = Inr (lhsBlock ctx) \<and> alignTo 10 4 = Inr (rhsBlock ctx)
     \<and> lhsBlock ctx = 12 \<and> nrows_a (lhs ctx) = 12
     \<and> lhsBlock ctx dvd nrows_a (lhs ctx) \<and> rhsBlock ctx dvd nrows_a (rhs ctx)"
proof -
  have d: "alignTo 200 (mul64 4 64) = Inr 256" by (simp add: alignTo_def mul64_def add64_def)
  have c: "computeBlockSize (of_uint64 binary32 4) (of_uint64 binary32 4)
             (of_uint64 binary32 65536) (of_uint64 binary32 256) = Inr (76, 76)"
    using computeBlockSize_4_4 by (simp add: solver_arguments)
  have a: "alignTo 10 4 = Inr 12" "alignTo 10 12 = Inr 12" by (simp_all add: alignTo_def add64_def)
  let ?l = "\<lparr>issigned = False, nbits = 2, nrows = 10, ncols = 200, nrows_a = 12, ncols_a = 256,
             data = map (\<lambda>i. 0) [0..<96]\<rparr>"
  let ?ctx = "\<lparr>lhs = ?l, rhs = ?l, lhsBlock = 12, rhsBlock = 12, res = map (\<lambda>i. 0) [0..<100]\<rparr>"
  have al: "alloc (Some (\<lambda>i. 0)) 2 10 200 False 12 (mul64 4 64) = Inr ?l"
    using a by (simp add: alloc_def newArray_def mul64_def alignTo_def add64_def
        wordsPerBitplane_def wordsPerRow_def Let_def)
  have run: "allocGEMMContext_base (Some (\<lambda>i. 0)) (Some (\<lambda>i. 0)) (Some (\<lambda>i. 0))
               10 200 10 2 2 False False 4 4 4 65536 = Inr ?ctx"
    unfolding allocGEMMContext_base_def d
    using a al by (simp add: c newArray_def mul64_def Let_def)
  have rows: "(10::nat) < 2 ^ 64" by simp
  from allocGEMMContext_base_blocks [OF run rows rows] d c
  have "alignTo 10 4 = Inr (lhsBlock ?ctx) \<and> alignTo 10 4 = Inr (rhsBlock ?ctx)
     \<and> lhsBlock ?ctx dvd nrows_a (lhs ?ctx) \<and> rhsBlock ?ctx dvd nrows_a (rhs ?ctx)"
    by simp
  then show ?thesis using run by simp
qed

text \<open>
  C8 as stated fails where \<open>alignTo\<close> wraps: with \<open>2 ^ 64 - 1\<close> rows on both sides
  and a block of 6, the padded row count \<open>2 ^ 64 + 2\<close> wraps to 2, which 6 does not
  divide (the result buffer has \<open>(2 ^ 64 - 1)\<^sup>2 mod 2 ^ 64 = 1\<close> element, so the
  allocation goes through). The block is 6 whatever the test on the wasted rows says:
  the fine-tuner, started at 6 with steps of 6, has nothing to examine.
\<close>

theorem allocGEMMContext_base_counterexample:
  "\<exists>ctx. allocGEMMContext_base (Some (\<lambda>i. 0)) (Some (\<lambda>i. 0)) (Some (\<lambda>i. 0))
            (2 ^ 64 - 1) 1 (2 ^ 64 - 1) 1 1 False False 6 1 6 1000 = Inr ctx
     \<and> lhsBlock ctx = 6 \<and> nrows_a (lhs ctx) = 2 \<and> \<not> lhsBlock ctx dvd nrows_a (lhs ctx)"
proof -
  have d: "alignTo 1 (mul64 1 64) = Inr 64" by (simp add: alignTo_def mul64_def add64_def)
  have c: "computeBlockSize (of_uint64 binary32 6) (of_uint64 binary32 6)
             (of_uint64 binary32 1000) (of_uint64 binary32 64) = Inr (6, 6)"
    using computeBlockSize_6_6 by (simp add: solver_arguments)
  have a: "alignTo (2 ^ 64 - 1) 6 = Inr 2" by (simp add: alignTo_def add64_def)
  have ft: "finetuneBlockSize (2 ^ 64 - 1) 6 6 = Inr 6"
    unfolding finetuneBlockSize_def a by (simp add: finetune_loop.simps)
  have t: "tuneBlock (2 ^ 64 - 1) 6 6 = Inr 6"
    unfolding tuneBlock_def a using ft by simp
  let ?l = "\<lparr>issigned = False, nbits = 1, nrows = 2 ^ 64 - 1, ncols = 1, nrows_a = 2,
             ncols_a = 64, data = map (\<lambda>i. 0) [0..<2]\<rparr>"
  let ?ctx = "\<lparr>lhs = ?l, rhs = ?l, lhsBlock = 6, rhsBlock = 6, res = map (\<lambda>i. 0) [0..<1]\<rparr>"
  have al: "alloc (Some (\<lambda>i. 0)) 1 (2 ^ 64 - 1) 1 False 6 (mul64 1 64) = Inr ?l"
    unfolding alloc_def a by (simp add: newArray_def mul64_def alignTo_def add64_def
        wordsPerBitplane_def wordsPerRow_def Let_def)
  have n: "mul64 (2 ^ 64 - 1) (2 ^ 64 - 1) = 1" by (simp add: mul64_def)
  have run: "allocGEMMContext_base (Some (\<lambda>i. 0)) (Some (\<lambda>i. 0)) (Some (\<lambda>i. 0))
            (2 ^ 64 - 1) 1 (2 ^ 64 - 1) 1 1 False False 6 1 6 1000 = Inr ?ctx"
    unfolding allocGEMMContext_base_def d
    using t al n by (simp add: c newArray_def Let_def)
  then show ?thesis by simp
qed

text \<open>
  The test on the wasted rows, in \<open>double\<close>: with no wasted row it fails, and the
  candidate is kept. With 8 rows on each side and the solver's \<open>(8, 8)\<close> at
  \<open>(4, 4, 131327, 8192)\<close> the blocks are 8 and 8.
\<close>

lemma rne_nonneg: "0 \<le> y \<Longrightarrow> 0 \<le> rne y"
  by (auto simp: rne_def Let_def)

lemma fl_round_nonneg:
  assumes "0 \<le> x"
  shows "(\<exists>r\<ge>0. fl_round F x = Fin r) \<or> fl_round F x = PInf"
proof (cases F)
  case (fields p emin emax)
  show ?thesis
  proof (cases "x = 0")
    case True
    then show ?thesis by (simp add: fl_round_def fields)
  next
    case False
    then have x: "0 < x" using assms by simp
    have u: "0 < quantum F x" by (rule quantum_pos)
    then have "0 \<le> x / quantum F x" using x by simp
    then have "0 \<le> rne (x / quantum F x)" by (rule rne_nonneg)
    then have "0 \<le> of_int (rne (x / quantum F x)) * quantum F x" using u by simp
    then show ?thesis using x by (auto simp: fl_round_def fields Let_def)
  qed
qed

lemma fl_mul_nonneg:
  assumes "0 \<le> x" "0 \<le> y"
  shows "\<not> fl_less (fl_mul F (fl_round F x) (fl_round F y)) (Fin 0)"
proof -
  from fl_round_nonneg [OF assms(1), of F] fl_round_nonneg [OF assms(2), of F]
  consider r s where "0 \<le> r" "0 \<le> s" "fl_round F x = Fin r" "fl_round F y = Fin s"
    | r where "0 \<le> r" "fl_round F x = Fin r" "fl_round F y = PInf"
    | s where "0 \<le> s" "fl_round F x = PInf" "fl_round F y = Fin s"
    | "fl_round F x = PInf" "fl_round F y = PInf" by blast
  then show ?thesis
  proof cases
    case 1
    then have "0 \<le> r * s" by simp
    from fl_round_nonneg [OF this, of F] show ?thesis using 1 by auto
  qed auto
qed

lemma tuneBlock_aligned:
  assumes "alignTo rows block = Inr rows" "rows < 2 ^ 64"
  shows "tuneBlock rows block regblock = Inr block"
proof -
  have "sub64 rows rows = 0" using assms(2) by (simp add: sub64_def)
  moreover have "\<not> fl_less (fl_mul binary64 (fl_round binary64 (1 / 10))
                    (fl_round binary64 (real rows))) (Fin 0)"
    by (rule fl_mul_nonneg) simp_all
  ultimately show ?thesis
    using assms(1) by (simp add: tuneBlock_def of_uint64_def fl_round_def binary64_def)
qed

lemma allocGEMMContext_base_tie:
  "\<exists>ctx. allocGEMMContext_base (Some (\<lambda>i. 0)) (Some (\<lambda>i. 0)) (Some (\<lambda>i. 0))
            8 8192 8 1 1 False False 4 1 4 131327 = Inr ctx
     \<and> lhsBlock ctx = 8 \<and> rhsBlock ctx = 8"
proof -
  have d: "alignTo 8192 (mul64 1 64) = Inr 8192" by (simp add: alignTo_def mul64_def)
  have arg: "of_uint64 binary32 131327 = Fin 131327" "of_uint64 binary32 8192 = Fin 8192"
    using round32_int [of 131327] round32_int [of 8192] by (simp_all add: of_uint64_def)
  have c: "computeBlockSize (of_uint64 binary32 4) (of_uint64 binary32 4)
             (of_uint64 binary32 131327) (of_uint64 binary32 8192) = Inr (8, 8)"
    using computeBlockSize_tie by (simp add: solver_arguments arg)
  have a: "alignTo 8 8 = Inr 8" by (simp add: alignTo_def)
  have t: "tuneBlock 8 8 4 = Inr 8" by (rule tuneBlock_aligned [OF a]) simp
  let ?l = "\<lparr>issigned = False, nbits = 1, nrows = 8, ncols = 8192, nrows_a = 8, ncols_a = 8192,
             data = map (\<lambda>i. 0) [0..<1024]\<rparr>"
  let ?ctx = "\<lparr>lhs = ?l, rhs = ?l, lhsBlock = 8, rhsBlock = 8, res = map (\<lambda>i. 0) [0..<64]\<rparr>"
  have al: "alloc (Some (\<lambda>i. 0)) 1 8 8192 False 8 (mul64 1 64) = Inr ?l"
    using a by (simp add: alloc_def newArray_def mul64_def alignTo_def add64_def
        wordsPerBitplane_def wordsPerRow_def Let_def)
  have "allocGEMMContext_base (Some (\<lambda>i. 0)) (Some (\<lambda>i. 0)) (Some (\<lambda>i. 0))
            8 8192 8 1 1 False False 4 1 4 131327 = Inr ?ctx"
    unfolding allocGEMMContext_base_def d
    using t al by (simp add: c newArray_def mul64_def Let_def)
  then show ?thesis by simp
qed

section \<open>Properties of the GEMM kernel\<close>

lemma adds_fold:
  assumes "\<And>k. k < n \<Longrightarrow> adds (f k) (F k)"
  shows "adds (\<lambda>idx. \<Sum>k<n. f k idx) (fold F [0..<n])"
  using assms
proof (induction n)
  case 0
  then show ?case by (simp add: adds_def)
next
  case (Suc n)
  then have a: "adds (\<lambda>idx. \<Sum>k<n. f k idx) (fold F [0..<n])" and b: "adds (f n) (F n)"
    by simp_all
  show ?case unfolding adds_def
  proof (intro allI conjI impI)
    fix acc :: "32 word list"
    show "length (fold F [0..<Suc n] acc) = length acc"
      using a b by (simp add: adds_def)
  next
    fix acc :: "32 word list" and idx assume "idx < length acc"
    then show "fold F [0..<Suc n] acc ! idx = acc ! idx + (\<Sum>k<Suc n. f k idx)"
      using a b by (simp add: adds_def add.assoc)
  qed
qed

lemma adds_cong: "adds f F \<Longrightarrow> (\<And>idx. f idx = g idx) \<Longrightarrow> adds g F"
  by (simp add: adds_def)

lemma adds_accumulate:
  "adds (\<lambda>idx. if i < nrows (lhs ctx) \<and> j < nrows (rhs ctx) \<and> idx = i * nrows (rhs ctx) + j
                then word_of_int (planeContribution ctx bL bR i j) else 0)
        (accumulate ctx bL bR i j)"
  by (auto simp: adds_def accumulate_def nth_list_update)

lemma row_major_unique:
  fixes i j i' j' n :: nat
  assumes "j < n" "j' < n"
  shows "i * n + j = i' * n + j' \<longleftrightarrow> i = i' \<and> j = j'"
proof
  assume e: "i * n + j = i' * n + j'"
  have "(i * n + j) div n = i" "(i' * n + j') div n = i'" using assms by simp_all
  then have "i = i'" using e by simp
  then show "i = i' \<and> j = j'" using e by simp
qed simp

lemma tile_delta:
  fixes X :: "32 word" and B t i :: nat
  assumes "0 < B"
  shows "(\<Sum>ii<B. if t * B + ii = i then X else 0) = (if i div B = t then X else 0)"
proof (cases "i div B = t")
  case True
  then have "t * B + i mod B = i" by (metis div_mult_mod_eq)
  then have "(\<Sum>ii<B. if t * B + ii = i then X else 0) = (\<Sum>ii<B. if ii = i mod B then X else 0)"
    by (intro sum.cong) auto
  also have "\<dots> = X" using assms by (simp add: sum.delta)
  finally show ?thesis using True by simp
next
  case False
  have "t * B + ii \<noteq> i" if "ii < B" for ii
  proof
    assume "t * B + ii = i"
    then have "i div B = t" using that by auto
    then show False using False by simp
  qed
  then have "(\<Sum>ii<B. if t * B + ii = i then X else 0) = (\<Sum>ii<B. 0)"
    by (intro sum.cong) auto
  then show ?thesis using False by simp
qed

lemma tiles_delta:
  fixes X :: "32 word" and B T i :: nat
  assumes "i div B < T"
  shows "(\<Sum>t<T. if i div B = t then X else 0) = X"
  using assms by (simp add: sum.delta')

lemma adds_microKernel:
  "adds (\<lambda>idx. \<Sum>ii<lhsBlock ctx. \<Sum>jj<rhsBlock ctx.
            visit ctx bL bR (lt * lhsBlock ctx + ii) (rt * rhsBlock ctx + jj) idx)
        (microKernel ctx lt rt bL bR)"
  unfolding microKernel_def visit_def
  by (intro adds_fold adds_accumulate)

lemma adds_kernel:
  "adds (\<lambda>idx. \<Sum>lt<TL. \<Sum>rt<TR. \<Sum>bL<nL. \<Sum>bR<nR.
            \<Sum>ii<lhsBlock ctx. \<Sum>jj<rhsBlock ctx.
              visit ctx bL bR (lt * lhsBlock ctx + ii) (rt * rhsBlock ctx + jj) idx)
        (fold (\<lambda>lt. fold (\<lambda>rt.
             fold (\<lambda>bL. fold (\<lambda>bR. microKernel ctx lt rt bL bR) [0..<nR]) [0..<nL])
             [0..<TR]) [0..<TL])"
  by (intro adds_fold adds_microKernel)

lemma visit_tile:
  assumes i: "i < nrows (lhs ctx)" and j: "j < nrows (rhs ctx)"
    and B: "0 < lhsBlock ctx" "0 < rhsBlock ctx"
  shows "(\<Sum>ii<lhsBlock ctx. \<Sum>jj<rhsBlock ctx.
            visit ctx bL bR (lt * lhsBlock ctx + ii) (rt * rhsBlock ctx + jj)
              (i * nrows (rhs ctx) + j))
         = (if i div lhsBlock ctx = lt then
              (if j div rhsBlock ctx = rt then word_of_int (planeContribution ctx bL bR i j) else 0)
            else 0)"
proof -
  let ?W = "word_of_int (planeContribution ctx bL bR i j) :: 32 word"
  have v: "visit ctx bL bR (lt * lhsBlock ctx + ii) (rt * rhsBlock ctx + jj)
              (i * nrows (rhs ctx) + j)
           = (if lt * lhsBlock ctx + ii = i then (if rt * rhsBlock ctx + jj = j then ?W else 0) else 0)"
    for ii jj
  proof (cases "rt * rhsBlock ctx + jj < nrows (rhs ctx)")
    case True
    from row_major_unique [OF j True, of i "lt * lhsBlock ctx + ii"]
    show ?thesis using i j by (auto simp: visit_def)
  next
    case False
    then have "rt * rhsBlock ctx + jj \<noteq> j" using j by auto
    then show ?thesis using False by (simp add: visit_def)
  qed
  have "(\<Sum>ii<lhsBlock ctx. \<Sum>jj<rhsBlock ctx.
            visit ctx bL bR (lt * lhsBlock ctx + ii) (rt * rhsBlock ctx + jj)
              (i * nrows (rhs ctx) + j))
        = (\<Sum>ii<lhsBlock ctx. if lt * lhsBlock ctx + ii = i
              then (\<Sum>jj<rhsBlock ctx. if rt * rhsBlock ctx + jj = j then ?W else 0) else 0)"
    unfolding v by (intro sum.cong refl) simp
  also have "\<dots> = (if i div lhsBlock ctx = lt then
              (if j div rhsBlock ctx = rt then ?W else 0) else 0)"
    unfolding tile_delta [OF B(2)] tile_delta [OF B(1)] ..
  finally show ?thesis .
qed

lemma kernel_cell:
  assumes i: "i < nrows (lhs ctx)" and j: "j < nrows (rhs ctx)"
    and B: "0 < lhsBlock ctx" "0 < rhsBlock ctx"
    and T: "i div lhsBlock ctx < TL" "j div rhsBlock ctx < TR"
  shows "(\<Sum>lt<TL. \<Sum>rt<TR. \<Sum>bL<nL. \<Sum>bR<nR.
            \<Sum>ii<lhsBlock ctx. \<Sum>jj<rhsBlock ctx.
              visit ctx bL bR (lt * lhsBlock ctx + ii) (rt * rhsBlock ctx + jj)
                (i * nrows (rhs ctx) + j))
         = word_of_int (\<Sum>bL<nL. \<Sum>bR<nR. planeContribution ctx bL bR i j)"
proof -
  let ?S = "(\<Sum>bL<nL. \<Sum>bR<nR. word_of_int (planeContribution ctx bL bR i j)) :: 32 word"
  have inner: "(\<Sum>bL<nL. \<Sum>bR<nR.
            \<Sum>ii<lhsBlock ctx. \<Sum>jj<rhsBlock ctx.
              visit ctx bL bR (lt * lhsBlock ctx + ii) (rt * rhsBlock ctx + jj)
                (i * nrows (rhs ctx) + j))
          = (if i div lhsBlock ctx = lt then (if j div rhsBlock ctx = rt then ?S else 0) else 0)"
    for lt rt
    unfolding visit_tile [OF i j B] by simp
  have "(\<Sum>lt<TL. \<Sum>rt<TR. \<Sum>bL<nL. \<Sum>bR<nR.
            \<Sum>ii<lhsBlock ctx. \<Sum>jj<rhsBlock ctx.
              visit ctx bL bR (lt * lhsBlock ctx + ii) (rt * rhsBlock ctx + jj)
                (i * nrows (rhs ctx) + j))
        = (\<Sum>lt<TL. if i div lhsBlock ctx = lt
             then (\<Sum>rt<TR. if j div rhsBlock ctx = rt then ?S else 0) else 0)"
    unfolding inner by (intro sum.cong refl) simp
  also have "\<dots> = ?S" unfolding tiles_delta [OF T(2)] tiles_delta [OF T(1)] ..
  also have "\<dots> = word_of_int (\<Sum>bL<nL. \<Sum>bR<nR. planeContribution ctx bL bR i j)"
    by (simp add: of_int_sum)
  finally show ?thesis .
qed

lemma gemmBitSerial_cell:
  assumes ready: "kernelReady ctx" and i: "i < nrows (lhs ctx)" and j: "j < nrows (rhs ctx)"
  shows "\<exists>ctx'. gemmBitSerial ctx = Inr ctx'
     \<and> length (res ctx') = nrows (lhs ctx) * nrows (rhs ctx)
     \<and> res ctx' ! (i * nrows (rhs ctx) + j)
         = sint (word_of_int (\<Sum>bL<nbits (lhs ctx). \<Sum>bR<nbits (rhs ctx).
                   planeContribution ctx bL bR i j) :: 32 word)"
proof -
  let ?TL = "nrows_a (lhs ctx) div lhsBlock ctx"
  let ?TR = "nrows_a (rhs ctx) div rhsBlock ctx"
  let ?n = "nrows (lhs ctx) * nrows (rhs ctx)"
  let ?F = "fold (\<lambda>lt. fold (\<lambda>rt.
             fold (\<lambda>bL. fold (\<lambda>bR. microKernel ctx lt rt bL bR)
               [0..<nbits (rhs ctx)]) [0..<nbits (lhs ctx)])
             [0..<?TR]) [0..<?TL]"
  have B: "0 < lhsBlock ctx" "0 < rhsBlock ctx" using ready by (simp_all add: kernelReady_def)
  have ia: "i < nrows_a (lhs ctx)" "j < nrows_a (rhs ctx)"
    using ready i j by (simp_all add: kernelReady_def wellFormed_def)
  have "nrows_a (lhs ctx) = ?TL * lhsBlock ctx" "nrows_a (rhs ctx) = ?TR * rhsBlock ctx"
    using ready by (simp_all add: kernelReady_def)
  then have T: "i div lhsBlock ctx < ?TL" "j div rhsBlock ctx < ?TR"
    using ia B by (metis div_less_iff_less_mult mult.commute)+
  have idx: "i * nrows (rhs ctx) + j < ?n" by (rule cell_index [OF i j])
  note a = adds_kernel [where TL = ?TL and TR = ?TR and nL = "nbits (lhs ctx)"
      and nR = "nbits (rhs ctx)" and ctx = ctx, unfolded adds_def, rule_format,
      where acc = "replicate ?n 0"]
  have len: "length (?F (replicate ?n 0)) = ?n" using a by simp
  have "?F (replicate ?n 0) ! (i * nrows (rhs ctx) + j)
      = word_of_int (\<Sum>bL<nbits (lhs ctx). \<Sum>bR<nbits (rhs ctx). planeContribution ctx bL bR i j)"
    using a idx kernel_cell [OF i j B T] by simp
  then show ?thesis using ready len idx by (simp add: gemmBitSerial_def)
qed

lemma popcount_sum: "popcount w = (\<Sum>n<64. of_bool (bit w n))"
proof -
  have "length (filter P [0..<n]) = (\<Sum>i<n. of_bool (P i))" for P :: "nat \<Rightarrow> bool" and n
    by (induction n) simp_all
  then show ?thesis by (simp add: popcount_def)
qed

lemma sum_words_bits:
  fixes g :: "nat \<Rightarrow> nat"
  shows "(\<Sum>k<K. \<Sum>n<64. g (k * 64 + n)) = (\<Sum>c<K * 64. g c)"
proof (induction K)
  case 0
  then show ?case by simp
next
  case (Suc K)
  have "(\<Sum>c<Suc K * 64. g c) = (\<Sum>c<K * 64. g c) + (\<Sum>c = K * 64..<K * 64 + 64. g c)"
    using sum.atLeastLessThan_concat [of 0 "K * 64" "K * 64 + 64" g]
    by (simp add: atLeast0LessThan add.commute)
  also have "(\<Sum>c = K * 64..<K * 64 + 64. g c) = (\<Sum>n<64. g (K * 64 + n))"
    using sum.shift_bounds_nat_ivl [of g 0 "K * 64" 64]
    by (simp add: atLeast0LessThan add.commute)
  finally show ?case using Suc.IH by simp
qed

lemma wordAt_bit:
  assumes wf: "wellFormed m" and b: "b < nbits m" and r: "r < nrows_a m"
    and k: "k < wordsPerRow m" and n: "n < 64"
  shows "bit (wordAt m b r k) n \<longleftrightarrow> (b, r, k * 64 + n) \<in> bitsSet m"
proof -
  have wpb: "wordsPerBitplane m = nrows_a m * (ncols_a m div 64)"
    using wellFormed_plane [OF wf] by (simp add: wordsPerBitplane_def wordsPerRow_def mul64_def)
  have "64 dvd ncols_a m" using wf by (simp add: wellFormed_def)
  then have nca: "ncols_a m = wordsPerRow m * 64" by (simp add: wordsPerRow_def)
  have c: "k * 64 + n < ncols_a m" unfolding nca using cell_index [OF k n] .
  have "(b, r, k * 64 + n) \<in> allocated m" using b r c by (simp add: allocated_def)
  then have "(b, r, k * 64 + n) \<in> bitsSet m \<longleftrightarrow> bitAt m b r (k * 64 + n)"
    by (simp add: bitsSet_def)
  also have "\<dots> \<longleftrightarrow> bit (wordAt m b r k) n"
    using n by (simp add: bitAt_def wordAt_def wpb wordsPerRow_def)
  finally show ?thesis by simp
qed

lemma andPopcount_columns:
  assumes wl: "wellFormed l" and wr: "wellFormed r" and nc: "ncols_a l = ncols_a r"
    and bL: "bL < nbits l" and i: "i < nrows_a l" and bR: "bR < nbits r" and j: "j < nrows_a r"
  shows "andPopcount l bL i r bR j
     = (\<Sum>c<ncols_a l. of_bool ((bL, i, c) \<in> bitsSet l \<and> (bR, j, c) \<in> bitsSet r))"
proof -
  have "64 dvd ncols_a l" using wl by (simp add: wellFormed_def)
  then have nca: "ncols_a l = wordsPerRow l * 64" by (simp add: wordsPerRow_def)
  have w: "wordsPerRow r = wordsPerRow l" using nc by (simp add: wordsPerRow_def)
  have "andPopcount l bL i r bR j
      = (\<Sum>k<wordsPerRow l. \<Sum>n<64.
           of_bool ((bL, i, k * 64 + n) \<in> bitsSet l \<and> (bR, j, k * 64 + n) \<in> bitsSet r))"
    unfolding andPopcount_def popcount_sum
    by (intro sum.cong refl)
       (simp add: bit_and_iff wordAt_bit [OF wl bL i] wordAt_bit [OF wr bR j] w)
  also have "\<dots> = (\<Sum>c<wordsPerRow l * 64.
           of_bool ((bL, i, c) \<in> bitsSet l \<and> (bR, j, c) \<in> bitsSet r))"
    by (rule sum_words_bits)
  finally show ?thesis unfolding nca .
qed

lemma rowPopcount_columns:
  assumes wf: "wellFormed m" and b: "b < nbits m" and r: "r < nrows_a m"
  shows "rowPopcount m b r = (\<Sum>c<ncols_a m. of_bool ((b, r, c) \<in> bitsSet m))"
proof -
  have "64 dvd ncols_a m" using wf by (simp add: wellFormed_def)
  then have nca: "ncols_a m = wordsPerRow m * 64" by (simp add: wordsPerRow_def)
  have "rowPopcount m b r
      = (\<Sum>k<wordsPerRow m. \<Sum>n<64. of_bool ((b, r, k * 64 + n) \<in> bitsSet m))"
    unfolding rowPopcount_def popcount_sum
    by (intro sum.cong refl) (simp add: wordAt_bit [OF wf b r])
  also have "\<dots> = (\<Sum>c<wordsPerRow m * 64. of_bool ((b, r, c) \<in> bitsSet m))"
    by (rule sum_words_bits)
  finally show ?thesis unfolding nca .
qed

lemma sum_logical_columns:
  fixes f :: "nat \<Rightarrow> nat"
  assumes "n \<le> na" "\<And>c. n \<le> c \<Longrightarrow> f c = 0"
  shows "(\<Sum>c<na. f c) = (\<Sum>c<n. f c)"
proof -
  have "(\<Sum>c\<in>{..<n}. f c) = (\<Sum>c\<in>{..<na}. f c)"
    using assms by (intro sum.mono_neutral_left) auto
  then show ?thesis by simp
qed

lemma bilinear_sum:
  fixes a b :: "nat \<Rightarrow> int" and f g :: "nat \<Rightarrow> nat \<Rightarrow> int"
  shows "(\<Sum>bL<nL. \<Sum>bR<nR. a bL * b bR * (\<Sum>c<n. f bL c * g bR c))
       = (\<Sum>c<n. (\<Sum>bL<nL. a bL * f bL c) * (\<Sum>bR<nR. b bR * g bR c))"
proof -
  have "(\<Sum>c<n. (\<Sum>bL<nL. a bL * f bL c) * (\<Sum>bR<nR. b bR * g bR c))
      = (\<Sum>c<n. \<Sum>bL<nL. \<Sum>bR<nR. a bL * b bR * (f bL c * g bR c))"
    by (simp add: sum_product algebra_simps)
  also have "\<dots> = (\<Sum>bL<nL. \<Sum>c<n. \<Sum>bR<nR. a bL * b bR * (f bL c * g bR c))"
    by (rule sum.swap)
  also have "\<dots> = (\<Sum>bL<nL. \<Sum>bR<nR. \<Sum>c<n. a bL * b bR * (f bL c * g bR c))"
    by (intro sum.cong refl sum.swap)
  also have "\<dots> = (\<Sum>bL<nL. \<Sum>bR<nR. a bL * b bR * (\<Sum>c<n. f bL c * g bR c))"
    by (simp add: sum_distrib_left)
  finally show ?thesis by simp
qed

lemma linear_sum:
  fixes b x :: "nat \<Rightarrow> int" and g :: "nat \<Rightarrow> nat \<Rightarrow> int"
  shows "(\<Sum>bR<nR. b bR * (\<Sum>c<n. x c * g bR c))
       = (\<Sum>c<n. x c * (\<Sum>bR<nR. b bR * g bR c))"
proof -
  have "(\<Sum>c<n. x c * (\<Sum>bR<nR. b bR * g bR c)) = (\<Sum>c<n. \<Sum>bR<nR. b bR * (x c * g bR c))"
    by (simp add: sum_distrib_left algebra_simps)
  also have "\<dots> = (\<Sum>bR<nR. \<Sum>c<n. b bR * (x c * g bR c))" by (rule sum.swap)
  also have "\<dots> = (\<Sum>bR<nR. b bR * (\<Sum>c<n. x c * g bR c))" by (simp add: sum_distrib_left)
  finally show ?thesis by simp
qed

lemma decoded_value:
  assumes "\<not> isBipolar m" "nbits m \<le> 8" "issigned m \<longrightarrow> 0 < nbits m" "inRange m v"
  shows "(\<Sum>b<nbits m. planeValue m b * of_bool (bit (encode m v) b)) = v"
proof -
  have "(\<Sum>b<nbits m. planeValue m b * of_bool (bit (encode m v) b))
      = (\<Sum>b<nbits m. if bit (encode m v) b then planeValue m b else 0)"
    by (intro sum.cong refl) simp
  then show ?thesis using encode_decodes [OF assms] by simp
qed

lemma bipolar_value:
  assumes "isBipolar m" "inRange m v"
  shows "2 * of_bool (bit (encode m v) 0) - 1 = v"
  using assms by (auto simp: inRange_def encode_def)

lemma imported_member:
  assumes "wellFormed m0" "importRegular m0 A cm = Inr m" "b < nbits m0" "i < nrows m0"
  shows "(b, i, c) \<in> bitsSet m \<longleftrightarrow> c < ncols m0 \<and> bit (stored m0 A cm i c) b"
  using importRegular_bitsSet [OF assms(1,2)] assms(3,4) by (simp add: logicalBits_def)

lemma imported_andPopcount:
  assumes wl: "wellFormed l0" and il: "importRegular l0 A cmA = Inr l"
    and wr: "wellFormed r0" and ir: "importRegular r0 B cmB = Inr r"
    and nca: "ncols_a l0 = ncols_a r0" and nc: "ncols l0 = ncols r0"
    and bL: "bL < nbits l0" and i: "i < nrows l0" and bR: "bR < nbits r0" and j: "j < nrows r0"
  shows "int (andPopcount l bL i r bR j)
     = (\<Sum>c<ncols l0. of_bool (bit (stored l0 A cmA i c) bL)
                        * of_bool (bit (stored r0 B cmB j c) bR))"
proof -
  from importRegular_bitsSet [OF wl il] have sl: "sameShape l0 l" by blast
  from importRegular_bitsSet [OF wr ir] have sr: "sameShape r0 r" by blast
  have wl': "wellFormed l" by (rule sameShape_wellFormed [OF sl wl])
  have wr': "wellFormed r" by (rule sameShape_wellFormed [OF sr wr])
  have f: "ncols_a l = ncols_a l0" "ncols_a r = ncols_a r0" "nbits l = nbits l0" "nbits r = nbits r0"
    "nrows_a l = nrows_a l0" "nrows_a r = nrows_a r0"
    using sl sr by (simp_all add: sameShape_def)
  have ia: "i < nrows_a l" "j < nrows_a r" "ncols l0 \<le> ncols_a l0"
    using wl wr i j f by (simp_all add: wellFormed_def)
  have "andPopcount l bL i r bR j
     = (\<Sum>c<ncols_a l. of_bool ((bL, i, c) \<in> bitsSet l \<and> (bR, j, c) \<in> bitsSet r))"
    by (rule andPopcount_columns [OF wl' wr' _ _ ia(1) _ ia(2)]) (simp_all add: f nca bL bR)
  also have "\<dots> = (\<Sum>c<ncols_a l0. of_bool (c < ncols l0 \<and> bit (stored l0 A cmA i c) bL
                                         \<and> bit (stored r0 B cmB j c) bR))"
    unfolding f imported_member [OF wl il bL i] imported_member [OF wr ir bR j] nc [symmetric]
    by (intro sum.cong refl) auto
  also have "\<dots> = (\<Sum>c<ncols l0. of_bool (c < ncols l0 \<and> bit (stored l0 A cmA i c) bL
                                         \<and> bit (stored r0 B cmB j c) bR))"
    by (rule sum_logical_columns [OF ia(3)]) simp
  also have "\<dots> = (\<Sum>c<ncols l0. of_bool (bit (stored l0 A cmA i c) bL)
                        * of_bool (bit (stored r0 B cmB j c) bR))"
    by (intro sum.cong refl) simp
  finally show ?thesis by simp
qed

lemma imported_rowPopcount:
  assumes wf: "wellFormed m0" and im: "importRegular m0 A cm = Inr m"
    and b: "b < nbits m0" and i: "i < nrows m0"
  shows "int (rowPopcount m b i) = (\<Sum>c<ncols m0. of_bool (bit (stored m0 A cm i c) b))"
proof -
  from importRegular_bitsSet [OF wf im] have s: "sameShape m0 m" by blast
  have wf': "wellFormed m" by (rule sameShape_wellFormed [OF s wf])
  have f: "ncols_a m = ncols_a m0" "nbits m = nbits m0" "nrows_a m = nrows_a m0"
    using s by (simp_all add: sameShape_def)
  have ia: "i < nrows_a m" "ncols m0 \<le> ncols_a m0" using wf i f by (simp_all add: wellFormed_def)
  have "rowPopcount m b i = (\<Sum>c<ncols_a m. of_bool ((b, i, c) \<in> bitsSet m))"
    by (rule rowPopcount_columns [OF wf' _ ia(1)]) (simp add: f b)
  also have "\<dots> = (\<Sum>c<ncols_a m0. of_bool (c < ncols m0 \<and> bit (stored m0 A cm i c) b))"
    unfolding f imported_member [OF wf im b i] ..
  also have "\<dots> = (\<Sum>c<ncols m0. of_bool (c < ncols m0 \<and> bit (stored m0 A cm i c) b))"
    by (rule sum_logical_columns [OF ia(2)]) simp
  also have "\<dots> = (\<Sum>c<ncols m0. of_bool (bit (stored m0 A cm i c) b))"
    by (intro sum.cong refl) simp
  finally show ?thesis by simp
qed

lemma bipolar_sum:
  fixes f g :: "nat \<Rightarrow> int"
  shows "(\<Sum>c<n. (2 * f c - 1) * g c) = 2 * (\<Sum>c<n. f c * g c) - (\<Sum>c<n. g c)"
  by (simp add: sum_subtractf sum_distrib_left algebra_simps)

lemma bipolar_sum_right:
  fixes f g :: "nat \<Rightarrow> int"
  shows "(\<Sum>c<n. (2 * g c - 1) * f c) = 2 * (\<Sum>c<n. f c * g c) - (\<Sum>c<n. f c)"
  by (simp add: sum_subtractf sum_distrib_left algebra_simps)

lemma bipolar_bipolar_sum:
  fixes f g :: "nat \<Rightarrow> int"
  shows "(\<Sum>c<n. (2 * f c - 1) * (2 * g c - 1))
       = 4 * (\<Sum>c<n. f c * g c) - 2 * (\<Sum>c<n. f c) - 2 * (\<Sum>c<n. g c) + int n"
  by (simp add: sum_subtractf sum.distrib sum_distrib_left algebra_simps)

lemma planeContribution_sum:
  assumes wl: "wellFormed l0" and il: "importRegular l0 A cmA = Inr l"
    and wr: "wellFormed r0" and ir: "importRegular r0 B cmB = Inr r"
    and nca: "ncols_a l0 = ncols_a r0" and nc: "ncols l0 = ncols r0"
    and ctx: "lhs ctx = l" "rhs ctx = r"
    and nl: "nbits l0 \<le> 8" "issigned l0 \<longrightarrow> 0 < nbits l0"
    and nr: "nbits r0 \<le> 8" "issigned r0 \<longrightarrow> 0 < nbits r0"
    and lenA: "nrows l0 * ncols l0 \<le> length A" and rgA: "\<forall>v\<in>set A. inRange l0 v"
    and lenB: "nrows r0 * ncols r0 \<le> length B" and rgB: "\<forall>v\<in>set B. inRange r0 v"
    and i: "i < nrows l0" and j: "j < nrows r0"
  shows "(\<Sum>bL<nbits l. \<Sum>bR<nbits r. planeContribution ctx bL bR i j)
       = innerProduct (logical A cmA (nrows l0) (ncols l0))
                      (logical B cmB (nrows r0) (ncols r0)) (ncols l0) i j"
proof -
  let ?vL = "\<lambda>c. logical A cmA (nrows l0) (ncols l0) i c"
  let ?vR = "\<lambda>c. logical B cmB (nrows r0) (ncols r0) j c"
  let ?fL = "\<lambda>bL c. of_bool (bit (encode l0 (?vL c)) bL) :: int"
  let ?fR = "\<lambda>bR c. of_bool (bit (encode r0 (?vR c)) bR) :: int"
  let ?n = "ncols l0"
  from importRegular_bitsSet [OF wl il] have sl: "sameShape l0 l" by blast
  from importRegular_bitsSet [OF wr ir] have sr: "sameShape r0 r" by blast
  have f: "nbits l = nbits l0" "nbits r = nbits r0" "issigned l = issigned l0"
    "issigned r = issigned r0" "ncols l = ncols l0" "ncols r = ncols r0"
    using sl sr by (simp_all add: sameShape_def)
  have bip: "isBipolar l = isBipolar l0" "isBipolar r = isBipolar r0"
    by (simp_all add: isBipolar_def f)
  have pv: "planeValue l b = planeValue l0 b" "planeValue r b = planeValue r0 b" for b
    by (simp_all add: planeValue_def f)
  have inL: "inRange l0 (?vL c)" if "c < ?n" for c
    using rgA logical_in_set [OF i that lenA] by blast
  have inR: "inRange r0 (?vR c)" if "c < ?n" for c
    using rgB logical_in_set [OF j _ lenB, of c] that nc by simp
  have P: "int (andPopcount l bL i r bR j) = (\<Sum>c<?n. ?fL bL c * ?fR bR c)"
    if "bL < nbits l0" "bR < nbits r0" for bL bR
    using imported_andPopcount [OF wl il wr ir nca nc that(1) i that(2) j]
    by (simp add: stored_def)
  have RL: "int (rowPopcount l bL i) = (\<Sum>c<?n. ?fL bL c)" if "bL < nbits l0" for bL
    using imported_rowPopcount [OF wl il that i] by (simp add: stored_def)
  have RR: "int (rowPopcount r bR j) = (\<Sum>c<?n. ?fR bR c)" if "bR < nbits r0" for bR
    using imported_rowPopcount [OF wr ir that j] by (simp add: stored_def nc)
  have goal: "innerProduct (logical A cmA (nrows l0) (ncols l0))
                (logical B cmB (nrows r0) (ncols r0)) ?n i j = (\<Sum>c<?n. ?vL c * ?vR c)"
    by (simp add: innerProduct_def)
  consider (rr) "\<not> isBipolar l0" "\<not> isBipolar r0" | (br) "isBipolar l0" "\<not> isBipolar r0"
    | (rb) "\<not> isBipolar l0" "isBipolar r0" | (bb) "isBipolar l0" "isBipolar r0" by blast
  then have "(\<Sum>bL<nbits l0. \<Sum>bR<nbits r0. planeContribution ctx bL bR i j) = (\<Sum>c<?n. ?vL c * ?vR c)"
  proof cases
    case rr
    have c: "planeContribution ctx bL bR i j
        = planeValue l0 bL * planeValue r0 bR * (\<Sum>c<?n. ?fL bL c * ?fR bR c)"
      if "bL < nbits l0" "bR < nbits r0" for bL bR
    proof -
      have "planeContribution ctx bL bR i j
          = planeValue l0 bL * planeValue r0 bR * int (andPopcount l bL i r bR j)"
        using rr by (auto simp add: planeContribution_def Let_def isBipolarTimesBipolar_def ctx bip f
            planeValue_def power_add)
      then show ?thesis unfolding P [OF that] .
    qed
    have "(\<Sum>bL<nbits l0. \<Sum>bR<nbits r0. planeContribution ctx bL bR i j)
        = (\<Sum>bL<nbits l0. \<Sum>bR<nbits r0.
             planeValue l0 bL * planeValue r0 bR * (\<Sum>c<?n. ?fL bL c * ?fR bR c))"
      by (intro sum.cong refl) (simp add: c)
    also have "\<dots> = (\<Sum>c<?n. (\<Sum>bL<nbits l0. planeValue l0 bL * ?fL bL c)
                          * (\<Sum>bR<nbits r0. planeValue r0 bR * ?fR bR c))"
      by (rule bilinear_sum)
    also have "\<dots> = (\<Sum>c<?n. ?vL c * ?vR c)"
    proof (intro sum.cong refl)
      fix c assume "c \<in> {..<?n}"
      then have c: "c < ?n" by simp
      show "(\<Sum>bL<nbits l0. planeValue l0 bL * ?fL bL c)
              * (\<Sum>bR<nbits r0. planeValue r0 bR * ?fR bR c) = ?vL c * ?vR c"
        unfolding decoded_value [OF rr(1) nl inL [OF c]] decoded_value [OF rr(2) nr inR [OF c]] ..
    qed
    finally show ?thesis .
  next
    case br
    have n1: "nbits l0 = 1" using br(1) by (simp add: isBipolar_def)
    have c: "planeContribution ctx 0 bR i j
        = planeValue r0 bR * (\<Sum>c<?n. (2 * ?fL 0 c - 1) * ?fR bR c)"
      if "bR < nbits r0" for bR
    proof -
      have "(\<Sum>c<?n. (2 * ?fL 0 c - 1) * ?fR bR c)
          = 2 * (\<Sum>c<?n. ?fL 0 c * ?fR bR c) - (\<Sum>c<?n. ?fR bR c)"
        by (rule bipolar_sum)
      moreover have "planeContribution ctx 0 bR i j
          = planeValue r0 bR * (2 * int (andPopcount l 0 i r bR j) - int (rowPopcount r bR j))"
        using br by (simp add: planeContribution_def Let_def isBipolarTimesBipolar_def ctx bip pv)
      moreover have "0 < nbits l0" using n1 by simp
      ultimately show ?thesis unfolding P [OF \<open>0 < nbits l0\<close> that] RR [OF that] by simp
    qed
    have "(\<Sum>bL<nbits l0. \<Sum>bR<nbits r0. planeContribution ctx bL bR i j)
        = (\<Sum>bR<nbits r0. planeValue r0 bR * (\<Sum>c<?n. (2 * ?fL 0 c - 1) * ?fR bR c))"
      unfolding n1 by (simp, intro sum.cong refl) (simp add: c)
    also have "\<dots> = (\<Sum>c<?n. (2 * ?fL 0 c - 1) * (\<Sum>bR<nbits r0. planeValue r0 bR * ?fR bR c))"
      by (rule linear_sum)
    also have "\<dots> = (\<Sum>c<?n. ?vL c * ?vR c)"
    proof (intro sum.cong refl)
      fix c assume "c \<in> {..<?n}"
      then have c: "c < ?n" by simp
      show "(2 * ?fL 0 c - 1) * (\<Sum>bR<nbits r0. planeValue r0 bR * ?fR bR c) = ?vL c * ?vR c"
        unfolding bipolar_value [OF br(1) inL [OF c]] decoded_value [OF br(2) nr inR [OF c]] ..
    qed
    finally show ?thesis .
  next
    case rb
    have n1: "nbits r0 = 1" using rb(2) by (simp add: isBipolar_def)
    have c: "planeContribution ctx bL 0 i j
        = planeValue l0 bL * (\<Sum>c<?n. (2 * ?fR 0 c - 1) * ?fL bL c)"
      if "bL < nbits l0" for bL
    proof -
      have "(\<Sum>c<?n. (2 * ?fR 0 c - 1) * ?fL bL c)
          = 2 * (\<Sum>c<?n. ?fL bL c * ?fR 0 c) - (\<Sum>c<?n. ?fL bL c)"
        by (rule bipolar_sum_right)
      moreover have "planeContribution ctx bL 0 i j
          = planeValue l0 bL * (2 * int (andPopcount l bL i r 0 j) - int (rowPopcount l bL i))"
        using rb by (simp add: planeContribution_def Let_def isBipolarTimesBipolar_def ctx bip pv)
      moreover have "0 < nbits r0" using n1 by simp
      ultimately show ?thesis unfolding P [OF that \<open>0 < nbits r0\<close>] RL [OF that] by simp
    qed
    have "(\<Sum>bL<nbits l0. \<Sum>bR<nbits r0. planeContribution ctx bL bR i j)
        = (\<Sum>bL<nbits l0. planeValue l0 bL * (\<Sum>c<?n. (2 * ?fR 0 c - 1) * ?fL bL c))"
      unfolding n1 by (intro sum.cong refl) (simp add: c)
    also have "\<dots> = (\<Sum>c<?n. (2 * ?fR 0 c - 1) * (\<Sum>bL<nbits l0. planeValue l0 bL * ?fL bL c))"
      by (rule linear_sum)
    also have "\<dots> = (\<Sum>c<?n. ?vL c * ?vR c)"
    proof (intro sum.cong refl)
      fix c assume "c \<in> {..<?n}"
      then have c: "c < ?n" by simp
      show "(2 * ?fR 0 c - 1) * (\<Sum>bL<nbits l0. planeValue l0 bL * ?fL bL c) = ?vL c * ?vR c"
        unfolding bipolar_value [OF rb(2) inR [OF c]] decoded_value [OF rb(1) nl inL [OF c]]
        by (rule mult.commute)
    qed
    finally show ?thesis .
  next
    case bb
    have n1: "nbits l0 = 1" "nbits r0 = 1" using bb by (simp_all add: isBipolar_def)
    have z: "0 < nbits l0" "0 < nbits r0" using n1 by simp_all
    have "planeContribution ctx 0 0 i j
        = 4 * int (andPopcount l 0 i r 0 j) - 2 * int (rowPopcount l 0 i)
            - 2 * int (rowPopcount r 0 j) + int ?n"
      using bb by (simp add: planeContribution_def Let_def isBipolarTimesBipolar_def ctx bip f)
    also have "\<dots> = (\<Sum>c<?n. (2 * ?fL 0 c - 1) * (2 * ?fR 0 c - 1))"
      unfolding P [OF z] RL [OF z(1)] RR [OF z(2)] by (rule bipolar_bipolar_sum [symmetric])
    also have "\<dots> = (\<Sum>c<?n. ?vL c * ?vR c)"
    proof (intro sum.cong refl)
      fix c assume "c \<in> {..<?n}"
      then have c: "c < ?n" by simp
      show "(2 * ?fL 0 c - 1) * (2 * ?fR 0 c - 1) = ?vL c * ?vR c"
        unfolding bipolar_value [OF bb(1) inL [OF c]] bipolar_value [OF bb(2) inR [OF c]] ..
    qed
    finally show ?thesis by (simp add: n1)
  qed
  then show ?thesis unfolding goal f .
qed

lemma kernelReady_imported:
  assumes "kernelReady ctx" "sameShape (lhs ctx) l" "sameShape (rhs ctx) r"
  shows "kernelReady (ctx\<lparr>lhs := l, rhs := r\<rparr>)"
  using assms sameShape_wellFormed [of "lhs ctx" l] sameShape_wellFormed [of "rhs ctx" r]
  by (simp add: kernelReady_def sameShape_def)

lemma gemmBitSerial_length:
  assumes "kernelReady ctx"
  shows "\<exists>ctx'. gemmBitSerial ctx = Inr ctx'
     \<and> length (res ctx') = nrows (lhs ctx) * nrows (rhs ctx)"
proof -
  note a = adds_kernel [where TL = "nrows_a (lhs ctx) div lhsBlock ctx"
      and TR = "nrows_a (rhs ctx) div rhsBlock ctx" and nL = "nbits (lhs ctx)"
      and nR = "nbits (rhs ctx)" and ctx = ctx, unfolded adds_def, rule_format,
      where acc = "replicate (nrows (lhs ctx) * nrows (rhs ctx)) 0"]
  show ?thesis using assms a by (simp add: gemmBitSerial_def)
qed

lemma sint_int32:
  assumes "- (2 ^ 31) \<le> k" "k < 2 ^ 31"
  shows "sint (word_of_int k :: 32 word) = k"
  using assms by (simp add: sint_sbintrunc' signed_take_bit_int_eq_self)

text \<open>
  C1, as amended. In a context that meets the contract of the kernel, with operands of at
  most 8 bits (at least 1 when signed), regular or bipolar on either side, every pair of
  source matrices whose elements are in range for their operand is imported, the kernel
  returns, and entry \<open>(i, j)\<close> of its result, for \<open>i < lhs.nrows\<close> and \<open>j < rhs.nrows\<close>, is the
  naive inner product \<open>\<Sigma>_k A[i,k] * B[j,k]\<close> reduced to the 32-bit result cell: the
  inner product itself whenever it lies in \<open>[-2^31, 2^31)\<close>.
\<close>

theorem gemmBitSerial_inner_products:
  assumes ready: "kernelReady ctx"
    and nl: "nbits (lhs ctx) \<le> 8" "issigned (lhs ctx) \<longrightarrow> 0 < nbits (lhs ctx)"
    and nr: "nbits (rhs ctx) \<le> 8" "issigned (rhs ctx) \<longrightarrow> 0 < nbits (rhs ctx)"
    and lenA: "length A = nrows (lhs ctx) * ncols (lhs ctx)"
    and rgA: "\<forall>v\<in>set A. inRange (lhs ctx) v"
    and lenB: "length B = nrows (rhs ctx) * ncols (rhs ctx)"
    and rgB: "\<forall>v\<in>set B. inRange (rhs ctx) v"
  shows "\<exists>l r ctx'.
      importRegular (lhs ctx) A cmA = Inr l \<and> importRegular (rhs ctx) B cmB = Inr r
      \<and> gemmBitSerial (ctx\<lparr>lhs := l, rhs := r\<rparr>) = Inr ctx'
      \<and> length (res ctx') = nrows (lhs ctx) * nrows (rhs ctx)
      \<and> (\<forall>i<nrows (lhs ctx). \<forall>j<nrows (rhs ctx).
           res ctx' ! (i * nrows (rhs ctx) + j)
             = sint (word_of_int (innerProduct
                 (logical A cmA (nrows (lhs ctx)) (ncols (lhs ctx)))
                 (logical B cmB (nrows (rhs ctx)) (ncols (rhs ctx)))
                 (ncols (lhs ctx)) i j) :: 32 word)
           \<and> (- (2 ^ 31) \<le> innerProduct
                 (logical A cmA (nrows (lhs ctx)) (ncols (lhs ctx)))
                 (logical B cmB (nrows (rhs ctx)) (ncols (rhs ctx)))
                 (ncols (lhs ctx)) i j
              \<and> innerProduct
                 (logical A cmA (nrows (lhs ctx)) (ncols (lhs ctx)))
                 (logical B cmB (nrows (rhs ctx)) (ncols (rhs ctx)))
                 (ncols (lhs ctx)) i j < 2 ^ 31
              \<longrightarrow> res ctx' ! (i * nrows (rhs ctx) + j)
                    = innerProduct
                        (logical A cmA (nrows (lhs ctx)) (ncols (lhs ctx)))
                        (logical B cmB (nrows (rhs ctx)) (ncols (rhs ctx)))
                        (ncols (lhs ctx)) i j))"
proof -
  let ?l0 = "lhs ctx" and ?r0 = "rhs ctx"
  let ?ip = "innerProduct (logical A cmA (nrows ?l0) (ncols ?l0))
               (logical B cmB (nrows ?r0) (ncols ?r0)) (ncols ?l0)"
  have wl: "wellFormed ?l0" and wr: "wellFormed ?r0"
    and nca: "ncols_a ?l0 = ncols_a ?r0" and nc: "ncols ?l0 = ncols ?r0"
    using ready by (simp_all add: kernelReady_def)
  have "importable ?l0 A" by (rule inRange_importable [OF nl rgA lenA])
  from importRegular_total [OF wl this] obtain l where
    il: "importRegular ?l0 A cmA = Inr l" by blast
  have "importable ?r0 B" by (rule inRange_importable [OF nr rgB lenB])
  from importRegular_total [OF wr this] obtain r where
    ir: "importRegular ?r0 B cmB = Inr r" by blast
  from importRegular_bitsSet [OF wl il] have sl: "sameShape ?l0 l" by blast
  from importRegular_bitsSet [OF wr ir] have sr: "sameShape ?r0 r" by blast
  let ?ctx = "ctx\<lparr>lhs := l, rhs := r\<rparr>"
  have f: "nrows l = nrows ?l0" "nrows r = nrows ?r0" "nbits l = nbits ?l0" "nbits r = nbits ?r0"
    using sl sr by (simp_all add: sameShape_def)
  have ready': "kernelReady ?ctx" by (rule kernelReady_imported [OF ready sl sr])
  have lenA': "nrows ?l0 * ncols ?l0 \<le> length A" and lenB': "nrows ?r0 * ncols ?r0 \<le> length B"
    using lenA lenB by simp_all
  have cell: "\<exists>ctx'. gemmBitSerial ?ctx = Inr ctx'
       \<and> length (res ctx') = nrows ?l0 * nrows ?r0
       \<and> res ctx' ! (i * nrows ?r0 + j) = sint (word_of_int (?ip i j) :: 32 word)"
    if i: "i < nrows ?l0" and j: "j < nrows ?r0" for i j
  proof -
    have "(\<Sum>bL<nbits l. \<Sum>bR<nbits r. planeContribution ?ctx bL bR i j) = ?ip i j"
      by (rule planeContribution_sum [OF wl il wr ir nca nc _ _ nl nr lenA' rgA lenB' rgB i j])
         simp_all
    then show ?thesis using gemmBitSerial_cell [OF ready', of i j] i j by (simp add: f)
  qed
  have run: "\<exists>ctx'. gemmBitSerial ?ctx = Inr ctx' \<and> length (res ctx') = nrows ?l0 * nrows ?r0"
    using gemmBitSerial_length [OF ready'] by (simp add: f)
  then obtain ctx' where c: "gemmBitSerial ?ctx = Inr ctx'"
    "length (res ctx') = nrows ?l0 * nrows ?r0" by blast
  have "res ctx' ! (i * nrows ?r0 + j) = sint (word_of_int (?ip i j) :: 32 word)
      \<and> (- (2 ^ 31) \<le> ?ip i j \<and> ?ip i j < 2 ^ 31 \<longrightarrow> res ctx' ! (i * nrows ?r0 + j) = ?ip i j)"
    if "i < nrows ?l0" "j < nrows ?r0" for i j
    using cell [OF that] c(1) by (auto simp: sint_int32)
  with il ir c show ?thesis by blast
qed

lemma singleton_list: "length xs = 1 \<Longrightarrow> xs ! 0 = x \<Longrightarrow> xs = [x]"
  by (cases xs) simp_all

lemma four_list:
  "length xs = 4 \<Longrightarrow> xs ! 0 = a \<Longrightarrow> xs ! 1 = b \<Longrightarrow> xs ! 2 = c \<Longrightarrow> xs ! 3 = d
     \<Longrightarrow> xs = [a, b, c, d]"
  by (simp add: list_eq_iff_nth_eq numeral_eq_Suc All_less_Suc2)

theorem gemmBitSerial_inner_products_witness:
  "(\<exists>l r ctx'.
      importRegular \<lparr>issigned = False, nbits = 2, nrows = 2, ncols = 3, nrows_a = 2,
          ncols_a = 64, data = [5, 5, 5, 5]\<rparr> [1, 2, 3, 0, 1, 2] False = Inr l
    \<and> importRegular \<lparr>issigned = False, nbits = 2, nrows = 2, ncols = 3, nrows_a = 2,
          ncols_a = 64, data = [5, 5, 5, 5]\<rparr> [1, 1, 1, 2, 0, 1] False = Inr r
    \<and> gemmBitSerial \<lparr>lhs = l, rhs = r, lhsBlock = 2, rhsBlock = 2, res = [9, 9, 9, 9]\<rparr>
        = Inr ctx'
    \<and> res ctx' = [6, 5, 3, 2])
   \<and> (\<exists>l r ctx'.
      importRegular \<lparr>issigned = True, nbits = 1, nrows = 1, ncols = 8, nrows_a = 1,
          ncols_a = 64, data = [5]\<rparr> [1, 1, 1, 1, 1, 1, 1, 1] False = Inr l
    \<and> importRegular \<lparr>issigned = True, nbits = 1, nrows = 1, ncols = 8, nrows_a = 1,
          ncols_a = 64, data = [5]\<rparr> [1, - 1, 1, - 1, 1, - 1, 1, - 1] False = Inr r
    \<and> gemmBitSerial \<lparr>lhs = l, rhs = r, lhsBlock = 1, rhsBlock = 1, res = [9]\<rparr> = Inr ctx'
    \<and> res ctx' = [0])"
proof (intro conjI)
  let ?m = "\<lparr>issigned = False, nbits = 2, nrows = 2, ncols = 3, nrows_a = 2,
             ncols_a = 64, data = [5, 5, 5, 5 :: 64 word]\<rparr>"
  let ?A = "[1, 2, 3, 0, 1, 2 :: int]" and ?B = "[1, 1, 1, 2, 0, 1 :: int]"
  let ?ctx = "\<lparr>lhs = ?m, rhs = ?m, lhsBlock = 2, rhsBlock = 2, res = [9, 9, 9, 9]\<rparr>"
  have h: "kernelReady ?ctx"
    "nbits (lhs ?ctx) \<le> 8" "issigned (lhs ?ctx) \<longrightarrow> 0 < nbits (lhs ?ctx)"
    "nbits (rhs ?ctx) \<le> 8" "issigned (rhs ?ctx) \<longrightarrow> 0 < nbits (rhs ?ctx)"
    "length ?A = nrows (lhs ?ctx) * ncols (lhs ?ctx)" "\<forall>v\<in>set ?A. inRange (lhs ?ctx) v"
    "length ?B = nrows (rhs ?ctx) * ncols (rhs ?ctx)" "\<forall>v\<in>set ?B. inRange (rhs ?ctx) v"
    by (simp_all add: kernelReady_def wellFormed_def inRange_def isBipolar_def)
  have ip: "innerProduct (logical ?A False 2 3) (logical ?B False 2 3) 3 0 0 = 6"
    "innerProduct (logical ?A False 2 3) (logical ?B False 2 3) 3 0 1 = 5"
    "innerProduct (logical ?A False 2 3) (logical ?B False 2 3) 3 1 0 = 3"
    "innerProduct (logical ?A False 2 3) (logical ?B False 2 3) 3 1 1 = 2"
    by (simp_all add: innerProduct_def logical_def numeral_eq_Suc)
  from gemmBitSerial_inner_products [OF h, of False False] obtain l r ctx' where
    run: "importRegular ?m ?A False = Inr l" "importRegular ?m ?B False = Inr r"
      "gemmBitSerial \<lparr>lhs = l, rhs = r, lhsBlock = 2, rhsBlock = 2, res = [9, 9, 9, 9]\<rparr>
         = Inr ctx'"
    and len: "length (res ctx') = 4"
    and cells: "\<forall>i<2. \<forall>j<2.
        res ctx' ! (i * 2 + j)
          = sint (word_of_int (innerProduct (logical ?A False 2 3) (logical ?B False 2 3) 3 i j)
                    :: 32 word) \<and>
        (- (2 ^ 31) \<le> innerProduct (logical ?A False 2 3) (logical ?B False 2 3) 3 i j
        \<and> innerProduct (logical ?A False 2 3) (logical ?B False 2 3) 3 i j < 2 ^ 31
        \<longrightarrow> res ctx' ! (i * 2 + j)
              = innerProduct (logical ?A False 2 3) (logical ?B False 2 3) 3 i j)"
    by auto
  have "res ctx' ! 0 = 6" "res ctx' ! 1 = 5" "res ctx' ! 2 = 3" "res ctx' ! 3 = 2"
    using cells [rule_format, of 0 0] cells [rule_format, of 0 1]
      cells [rule_format, of 1 0] cells [rule_format, of 1 1]
    using ip by simp_all
  then have "res ctx' = [6, 5, 3, 2]" by (rule four_list [OF len])
  with run show "\<exists>l r ctx'. importRegular ?m ?A False = Inr l
    \<and> importRegular ?m ?B False = Inr r
    \<and> gemmBitSerial \<lparr>lhs = l, rhs = r, lhsBlock = 2, rhsBlock = 2, res = [9, 9, 9, 9]\<rparr>
        = Inr ctx'
    \<and> res ctx' = [6, 5, 3, 2]" by blast
next
  let ?m = "\<lparr>issigned = True, nbits = 1, nrows = 1, ncols = 8, nrows_a = 1,
             ncols_a = 64, data = [5 :: 64 word]\<rparr>"
  let ?A = "[1, 1, 1, 1, 1, 1, 1, 1 :: int]" and ?B = "[1, - 1, 1, - 1, 1, - 1, 1, - 1 :: int]"
  let ?ctx = "\<lparr>lhs = ?m, rhs = ?m, lhsBlock = 1, rhsBlock = 1, res = [9]\<rparr>"
  have h: "kernelReady ?ctx"
    "nbits (lhs ?ctx) \<le> 8" "issigned (lhs ?ctx) \<longrightarrow> 0 < nbits (lhs ?ctx)"
    "nbits (rhs ?ctx) \<le> 8" "issigned (rhs ?ctx) \<longrightarrow> 0 < nbits (rhs ?ctx)"
    "length ?A = nrows (lhs ?ctx) * ncols (lhs ?ctx)" "\<forall>v\<in>set ?A. inRange (lhs ?ctx) v"
    "length ?B = nrows (rhs ?ctx) * ncols (rhs ?ctx)" "\<forall>v\<in>set ?B. inRange (rhs ?ctx) v"
    by (simp_all add: kernelReady_def wellFormed_def inRange_def isBipolar_def)
  have ip: "innerProduct (logical ?A False 1 8) (logical ?B False 1 8) 8 0 0 = 0"
    by (simp add: innerProduct_def logical_def numeral_eq_Suc)
  from gemmBitSerial_inner_products [OF h, of False False] obtain l r ctx' where
    run: "importRegular ?m ?A False = Inr l" "importRegular ?m ?B False = Inr r"
      "gemmBitSerial \<lparr>lhs = l, rhs = r, lhsBlock = 1, rhsBlock = 1, res = [9]\<rparr> = Inr ctx'"
    and len: "length (res ctx') = 1"
    and cells: "\<forall>i<1. \<forall>j<1.
        res ctx' ! (i * 1 + j)
          = sint (word_of_int (innerProduct (logical ?A False 1 8) (logical ?B False 1 8) 8 i j)
                    :: 32 word) \<and>
        (- (2 ^ 31) \<le> innerProduct (logical ?A False 1 8) (logical ?B False 1 8) 8 i j
        \<and> innerProduct (logical ?A False 1 8) (logical ?B False 1 8) 8 i j < 2 ^ 31
        \<longrightarrow> res ctx' ! (i * 1 + j)
              = innerProduct (logical ?A False 1 8) (logical ?B False 1 8) 8 i j)"
    by auto
  have "res ctx' ! 0 = 0" using cells [rule_format, of 0 0] ip by simp
  with len have "res ctx' = [0]" by (rule singleton_list)
  with run show "\<exists>l r ctx'. importRegular ?m ?A False = Inr l
    \<and> importRegular ?m ?B False = Inr r
    \<and> gemmBitSerial \<lparr>lhs = l, rhs = r, lhsBlock = 1, rhsBlock = 1, res = [9]\<rparr> = Inr ctx'
    \<and> res ctx' = [0]" by blast
qed

text \<open>
  C1 as stated fails beyond 8 bits, where the importer stores only the low byte: the
  9-bit element 256 is stored as 0, and the product with \<open>[[1]]\<close> comes out as 0
  instead of 256.
\<close>

theorem gemmBitSerial_counterexample:
  "\<exists>l r ctx'.
      inRange \<lparr>issigned = False, nbits = 9, nrows = 1, ncols = 1, nrows_a = 1,
          ncols_a = 64, data = [5, 5, 5, 5, 5, 5, 5, 5, 5]\<rparr> 256
    \<and> importRegular \<lparr>issigned = False, nbits = 9, nrows = 1, ncols = 1, nrows_a = 1,
          ncols_a = 64, data = [5, 5, 5, 5, 5, 5, 5, 5, 5]\<rparr> [256] False = Inr l
    \<and> inRange \<lparr>issigned = False, nbits = 1, nrows = 1, ncols = 1, nrows_a = 1,
          ncols_a = 64, data = [5]\<rparr> 1
    \<and> importRegular \<lparr>issigned = False, nbits = 1, nrows = 1, ncols = 1, nrows_a = 1,
          ncols_a = 64, data = [5]\<rparr> [1] False = Inr r
    \<and> gemmBitSerial \<lparr>lhs = l, rhs = r, lhsBlock = 1, rhsBlock = 1, res = [7]\<rparr> = Inr ctx'
    \<and> res ctx' = [0]
    \<and> innerProduct (logical [256] False 1 1) (logical [1] False 1 1) 1 0 0 = 256"
proof -
  let ?mL = "\<lparr>issigned = False, nbits = 9, nrows = 1, ncols = 1, nrows_a = 1,
              ncols_a = 64, data = [5, 5, 5, 5, 5, 5, 5, 5, 5 :: 64 word]\<rparr>"
  let ?mR = "\<lparr>issigned = False, nbits = 1, nrows = 1, ncols = 1, nrows_a = 1,
              ncols_a = 64, data = [5 :: 64 word]\<rparr>"
  have rg: "inRange ?mL 256" "inRange ?mR 1" by (simp_all add: inRange_def isBipolar_def)
  have wl: "wellFormed ?mL" and wr: "wellFormed ?mR" by (simp_all add: wellFormed_def)
  have "importable ?mL [256]" by (simp add: importable_def)
  from importRegular_total [OF wl this] obtain l where
    il: "importRegular ?mL [256] False = Inr l" by blast
  have "importable ?mR [1]" by (simp add: importable_def)
  from importRegular_total [OF wr this] obtain r where
    ir: "importRegular ?mR [1] False = Inr r" by blast
  from importRegular_bitsSet [OF wl il] have sl: "sameShape ?mL l" by blast
  from importRegular_bitsSet [OF wr ir] have sr: "sameShape ?mR r" by blast
  let ?ctx = "\<lparr>lhs = l, rhs = r, lhsBlock = 1, rhsBlock = 1, res = [7]\<rparr>"
  have f: "nrows l = 1" "nrows r = 1" "nbits l = 9" "nbits r = 1" "\<not> issigned l" "\<not> issigned r"
    using sl sr by (simp_all add: sameShape_def)
  have ready: "kernelReady ?ctx"
    using kernelReady_imported [of "\<lparr>lhs = ?mL, rhs = ?mR, lhsBlock = 1, rhsBlock = 1,
      res = [7]\<rparr>" l r] sl sr wl wr by (simp add: kernelReady_def)
  have p: "andPopcount l bL 0 r 0 0 = 0" if "bL < 9" for bL
    using imported_andPopcount [OF wl il wr ir, of bL 0 0 0] that
    by (simp add: stored_def encode_def logical_def isBipolar_def)
  have c: "planeContribution ?ctx bL 0 0 0 = 0" if "bL < 9" for bL
    using p [OF that] f
    by (simp add: planeContribution_def Let_def isBipolarTimesBipolar_def isBipolar_def)
  have S: "(\<Sum>bL<nbits (lhs ?ctx). \<Sum>bR<nbits (rhs ?ctx). planeContribution ?ctx bL bR 0 0) = 0"
    using c by (simp add: f)
  have i: "0 < nrows (lhs ?ctx)" "0 < nrows (rhs ?ctx)" by (simp_all add: f)
  from gemmBitSerial_cell [OF ready i] obtain ctx' where
    run: "gemmBitSerial ?ctx = Inr ctx'"
    and len: "length (res ctx') = nrows (lhs ?ctx) * nrows (rhs ?ctx)"
    and cell: "res ctx' ! (0 * nrows (rhs ?ctx) + 0)
      = sint (word_of_int (\<Sum>bL<nbits (lhs ?ctx). \<Sum>bR<nbits (rhs ?ctx).
                planeContribution ?ctx bL bR 0 0) :: 32 word)"
    by blast
  have "length (res ctx') = 1" "res ctx' ! 0 = 0"
    using len cell unfolding S by (simp_all add: f)
  then have "res ctx' = [0]" by (rule singleton_list)
  moreover have "innerProduct (logical [256] False 1 1) (logical [1] False 1 1) 1 0 0 = 256"
    by (simp add: innerProduct_def logical_def)
  ultimately show ?thesis using rg il ir run by blast
qed

end
